theory Spec2Isabelle
  imports Complex_Main "HOL-Library.Monad_Syntax"
begin

section \<open>Rabbit Lyrics: strings and the time stamp pattern\<close>

text \<open>
  The development follows \<^verbatim>\<open>src/dist/rabbit-lyrics.js\<close> (class \<^verbatim>\<open>RabbitLyrics\<close>).
  JavaScript strings are modelled as \<^typ>\<open>string\<close>, one \<^typ>\<open>char\<close> per code unit
  below 256. JavaScript numbers are modelled as exact rationals: the rounding of IEEE
  doubles is not part of the model, and neither is \<^verbatim>\<open>NaN\<close>.
\<close>

subsection \<open>trim, split and indexOf\<close>

definition is_space :: "char \<Rightarrow> bool" where
  \<comment> \<open>the white space and line terminators of ECMAScript that fit in one byte\<close>
  "is_space c = ((of_char c :: nat) \<in> {9, 10, 11, 12, 13, 32, 160})"

definition trim :: "string \<Rightarrow> string" where
  "trim s = rev (dropWhile is_space (rev (dropWhile is_space s)))"

fun split_nl :: "string \<Rightarrow> string list" where
  \<comment> \<open>\<^verbatim>\<open>s.split('\n')\<close>: never the empty array, \<^verbatim>\<open>''.split('\n')\<close> is \<^verbatim>\<open>['']\<close>\<close>
  "split_nl [] = [[]]"
| "split_nl (c # cs) =
     (if c = CHR 0x0A then [] # split_nl cs
      else (case split_nl cs of [] \<Rightarrow> [[c]] | l # ls \<Rightarrow> (c # l) # ls))"

fun indexOf :: "string \<Rightarrow> string \<Rightarrow> int" where
  \<comment> \<open>\<^verbatim>\<open>s.indexOf(p)\<close>: the first position where \<open>p\<close> occurs, or \<open>-1\<close>\<close>
  "indexOf [] p = (if p = [] then 0 else -1)"
| "indexOf (c # cs) p =
     (if take (length p) (c # cs) = p then 0
      else (let i = indexOf cs p in if i < 0 then -1 else i + 1))"

subsection \<open>The pattern \<^verbatim>\<open>\[(\d+):(\d+\.\d+)\]\<close>\<close>

definition is_digit :: "char \<Rightarrow> bool" where
  "is_digit c = (48 \<le> (of_char c :: nat) \<and> (of_char c :: nat) \<le> 57)"

text \<open>
  One attempt of the regular expression at the head of a string. Each \<^verbatim>\<open>\d+\<close> is
  greedy and is followed by a literal that is not a digit, so backtracking into a
  shorter run of digits can never succeed: the attempt is deterministic.
  \<open>digits_before c\<close> is \<^verbatim>\<open>\d+\<close> followed by the literal \<open>c\<close>; it gives the digits and
  the unread rest. \<open>match_here\<close> gives the array of the match (the whole match and the
  two groups) and the unread rest.
\<close>

definition digits_before :: "char \<Rightarrow> string \<Rightarrow> (string \<times> string) option" where
  "digits_before c s =
     (let ds = takeWhile is_digit s in
        if ds = [] then None
        else (case dropWhile is_digit s of
                x # rest \<Rightarrow> if x = c then Some (ds, rest) else None
              | [] \<Rightarrow> None))"

definition match_here :: "string \<Rightarrow> ((string \<times> string \<times> string) \<times> string) option" where
  "match_here s =
     (case s of
        c0 # s1 \<Rightarrow>
          if c0 \<noteq> CHR ''['' then None
          else do {
            (m, s2) \<leftarrow> digits_before CHR '':'' s1;
            (a, s3) \<leftarrow> digits_before CHR ''.'' s2;
            (b, rest) \<leftarrow> digits_before CHR '']'' s3;
            Some ((CHR ''['' # m @ CHR '':'' # a @ CHR ''.'' # b @ [CHR '']''],
                   m, a @ CHR ''.'' # b), rest)
          }
      | [] \<Rightarrow> None)"

fun regex_exec :: "string \<Rightarrow> (string \<times> string \<times> string) option" where
  \<comment> \<open>\<^verbatim>\<open>s.match(/\[(\d+):(\d+\.\d+)\]/)\<close>: the leftmost match, \<open>None\<close> for \<^verbatim>\<open>null\<close>\<close>
  "regex_exec [] = None"
| "regex_exec (c # cs) =
     (case match_here (c # cs) of
        Some (r, rest) \<Rightarrow> Some r
      | None \<Rightarrow> regex_exec cs)"

subsection \<open>parseInt, parseFloat and decodeTimeStamp\<close>

definition digit_value :: "char \<Rightarrow> nat" where
  "digit_value c = of_char c - 48"

definition parseInt :: "string \<Rightarrow> nat" where
  \<comment> \<open>on a string of decimal digits, the only arguments it receives here\<close>
  "parseInt ds = foldl (\<lambda>n c. 10 * n + digit_value c) 0 (takeWhile is_digit ds)"

definition parseFloat :: "string \<Rightarrow> rat" where
  \<comment> \<open>on digits, optionally followed by a point and digits\<close>
  "parseFloat s =
     (case dropWhile is_digit s of
        c # f \<Rightarrow>
          if c = CHR ''.'' then
            of_nat (parseInt s) + of_nat (parseInt f) / 10 ^ length (takeWhile is_digit f)
          else of_nat (parseInt s)
      | [] \<Rightarrow> of_nat (parseInt s))"

definition decodeTimeStamp :: "string \<Rightarrow> rat option" where
  \<comment> \<open>\<open>None\<close> is the TypeError of \<^verbatim>\<open>results.length\<close> when \<^verbatim>\<open>match\<close> returned
      \<^verbatim>\<open>null\<close>. A match is always an array of length 3, so the test on the length holds.\<close>
  "decodeTimeStamp timeStamp =
     (case regex_exec timeStamp of
        None \<Rightarrow> None
      | Some (whole, g1, g2) \<Rightarrow> Some (of_nat (parseInt g1) * 60 + parseFloat g2))"

text \<open>The value of a string of decimal digits, position by position.\<close>

definition decimal :: "string \<Rightarrow> nat" where
  "decimal ds = (\<Sum>i<length ds. digit_value (ds ! i) * 10 ^ (length ds - 1 - i))"


subsection \<open>The three searches of a line and the removal of the time stamps\<close>

lemma digits_before_Some:
  assumes "digits_before c s = Some (ds, rest)"
  shows "ds \<noteq> []" "\<forall>x\<in>set ds. is_digit x" "s = ds @ c # rest"
proof -
  from assms have d: "ds = takeWhile is_digit s" "ds \<noteq> []" "dropWhile is_digit s = c # rest"
    by (auto simp: digits_before_def Let_def split: list.splits if_splits)
  show "ds \<noteq> []" by (rule d(2))
  show "\<forall>x\<in>set ds. is_digit x"
    unfolding d(1) by (auto dest: set_takeWhileD)
  have "takeWhile is_digit s @ dropWhile is_digit s = s" by simp
  then show "s = ds @ c # rest"
    unfolding d(1) d(3) by simp
qed

lemma match_here_Some:
  assumes "match_here s = Some ((w, g1, g2), rest)"
  shows "\<exists>m a b. m \<noteq> [] \<and> a \<noteq> [] \<and> b \<noteq> []
     \<and> (\<forall>c\<in>set m. is_digit c) \<and> (\<forall>c\<in>set a. is_digit c) \<and> (\<forall>c\<in>set b. is_digit c)
     \<and> w = CHR ''['' # m @ CHR '':'' # a @ CHR ''.'' # b @ [CHR '']'']
     \<and> g1 = m \<and> g2 = a @ CHR ''.'' # b \<and> s = w @ rest"
proof -
  from assms obtain s1 where s: "s = CHR ''['' # s1"
    by (cases s) (auto simp: match_here_def split: if_splits)
  from assms obtain m s2 a s3 b where
    d: "digits_before CHR '':'' s1 = Some (m, s2)" "digits_before CHR ''.'' s2 = Some (a, s3)"
    "digits_before CHR '']'' s3 = Some (b, rest)"
    and w: "w = CHR ''['' # m @ CHR '':'' # a @ CHR ''.'' # b @ [CHR '']'']" "g1 = m"
    "g2 = a @ CHR ''.'' # b"
    unfolding s match_here_def by (auto split: bind_splits)
  note m = digits_before_Some [OF d(1)] and a = digits_before_Some [OF d(2)]
    and b = digits_before_Some [OF d(3)]
  have "s = w @ rest"
    unfolding s w(1) using m(3) a(3) b(3) by simp
  then show ?thesis
    using m(1,2) a(1,2) b(1,2) w by blast
qed

lemma match_here_shorter: "match_here s = Some (r, rest) \<Longrightarrow> length rest < length s"
proof -
  assume m: "match_here s = Some (r, rest)"
  obtain w g1 g2 where "r = (w, g1, g2)" by (cases r)
  with m match_here_Some [of s w g1 g2 rest] show ?thesis by auto
qed

function match_all :: "string \<Rightarrow> string list" where
  \<comment> \<open>\<^verbatim>\<open>line.match(/\[\d+:\d+\.\d+\]/g) || []\<close>: every match from left to right, the
      search resuming where the previous match ended\<close>
  "match_all s =
     (case match_here s of
        Some ((whole, g1, g2), rest) \<Rightarrow> whole # match_all rest
      | None \<Rightarrow> (case s of [] \<Rightarrow> [] | c # cs \<Rightarrow> match_all cs))"
  by pat_completeness auto
termination
  by (relation "measure length") (auto dest: match_here_shorter)

declare match_all.simps [simp del]

definition match_beginning :: "string \<Rightarrow> string list" where
  \<comment> \<open>\<^verbatim>\<open>line.match(/^\[\d+:\d+\.\d+\]/g) || []\<close>: without the multiline flag the anchor
      holds at position 0 only\<close>
  "match_beginning s =
     (case match_here s of Some ((whole, g1, g2), rest) \<Rightarrow> [whole] | None \<Rightarrow> [])"

fun match_ending :: "string \<Rightarrow> string list" where
  \<comment> \<open>\<^verbatim>\<open>line.match(/\[\d+:\d+\.\d+\]$/g) || []\<close>: the leftmost position where the pattern
      matches and the end of the string follows\<close>
  "match_ending [] = []"
| "match_ending (c # cs) =
     (case match_here (c # cs) of
        Some ((whole, g1, g2), []) \<Rightarrow> [whole]
      | _ \<Rightarrow> match_ending cs)"

function remove_time_stamps :: "string \<Rightarrow> string" where
  \<comment> \<open>\<^verbatim>\<open>line.replace(/\[\d+:\d+\.\d+\]/g, '')\<close>\<close>
  "remove_time_stamps s =
     (case match_here s of
        Some (r, rest) \<Rightarrow> remove_time_stamps rest
      | None \<Rightarrow> (case s of [] \<Rightarrow> [] | c # cs \<Rightarrow> c # remove_time_stamps cs))"
  by pat_completeness auto
termination
  by (relation "measure length") (auto dest: match_here_shorter)

declare remove_time_stamps.simps [simp del]

section \<open>The widget\<close>

subsection \<open>DOM nodes and the state of a RabbitLyrics object\<close>

text \<open>
  \<^verbatim>\<open>dataset.start\<close> and \<^verbatim>\<open>dataset.end\<close> hold a number or \<^verbatim>\<open>Infinity\<close>, or nothing
  before they are assigned. The DOM stores them as strings and the comparisons convert
  them back; on these values the round trip is the identity, so the model keeps the value.
\<close>

datatype jsval = Undefined | Number rat | Infinity

definition js_ge :: "rat \<Rightarrow> jsval \<Rightarrow> bool" where
  \<comment> \<open>\<^verbatim>\<open>time >= v\<close> for a finite \<open>time\<close>\<close>
  "js_ge t v = (case v of Number x \<Rightarrow> x \<le> t | Infinity \<Rightarrow> False | Undefined \<Rightarrow> False)"

definition js_le :: "rat \<Rightarrow> jsval \<Rightarrow> bool" where
  \<comment> \<open>\<^verbatim>\<open>time <= v\<close> for a finite \<open>time\<close>\<close>
  "js_le t v = (case v of Number x \<Rightarrow> t \<le> x | Infinity \<Rightarrow> True | Undefined \<Rightarrow> False)"

record element =
  classList :: "string list"
  data_start :: jsval
  data_end :: jsval
  innerHTML :: string
  offsetTop :: rat
  offsetHeight :: rat

definition classList_contains :: "element \<Rightarrow> string \<Rightarrow> bool" where
  "classList_contains e c = (c \<in> set (classList e))"

definition classList_add :: "element \<Rightarrow> string \<Rightarrow> element" where
  "classList_add e c = (if c \<in> set (classList e) then e else e\<lparr>classList := classList e @ [c]\<rparr>)"

definition classList_remove :: "element \<Rightarrow> string \<Rightarrow> element" where
  "classList_remove e c = e\<lparr>classList := removeAll c (classList e)\<rparr>"

definition createElement_div :: element where
  \<comment> \<open>a node that has not been laid out yet\<close>
  "createElement_div =
     \<lparr>classList = [], data_start = Undefined, data_end = Undefined, innerHTML = [],
      offsetTop = 0, offsetHeight = 0\<rparr>"

text \<open>
  A DOM node is an object with an identity: the nodes created so far live in \<open>nodes\<close>
  and are referred to by their position there, so that \<open>lineElements\<close>, the children of
  the container and the parser's list of lines without ending time all share them.
  What the browser computes (the position and height of a node, the height of the
  container, the live interval timers) is part of the state as the browser reports it;
  the model does not compute any layout. \<open>scrollTop\<close> and \<open>scrollerTimer\<close> are
  assigned before the first interval is created; the model covers them from then on.
  A reference held by the object always points to an existing node (see \<open>wf\<close> below),
  and the methods read \<open>nodes ! r\<close> through such references only.
\<close>

record rabbit_lyrics =
  nodes :: "element list"
  children :: "nat list"
  lineElements :: "nat list"
  currentLine :: int
  mediaElement :: "rat option"
  clientHeight :: rat
  element_scrollTop :: rat
  scrollTop :: rat
  scrollerTimer :: rat
  scrollerInterval :: "nat option"
  scrollerIntervalDuration :: rat
  scrollerIntervalStep :: rat
  intervals :: "nat list"
  next_interval :: nat

text \<open>What the container reports when \<^verbatim>\<open>parseLyrics\<close> reads it.\<close>

record container =
  element_textContent :: string
  element_innerHTML :: string

subsection \<open>parseLyrics\<close>

fun close_lines :: "string \<Rightarrow> nat list \<Rightarrow> element list \<Rightarrow> element list option" where
  \<comment> \<open>the \<^verbatim>\<open>forEach\<close> over \<^verbatim>\<open>lineElementsWithoutEndingTime\<close>\<close>
  "close_lines ts [] ns = Some ns"
| "close_lines ts (r # rs) ns =
     do { v \<leftarrow> decodeTimeStamp ts;
          close_lines ts rs (ns[r := (ns ! r)\<lparr>data_end := Number v\<rparr>]) }"

text \<open>
  One turn of the loop. The state of the loop is the object, \<^verbatim>\<open>lastTime\<close> and
  \<^verbatim>\<open>lineElementsWithoutEndingTime\<close>.
\<close>

type_synonym parse_state = "rabbit_lyrics \<times> rat \<times> nat list"

definition parse_line :: "string \<Rightarrow> parse_state \<Rightarrow> parse_state option" where
  "parse_line raw st =
     (case st of (s, lastTime, without) \<Rightarrow>
        let lineElement = length (nodes s);
            ns1 = nodes s @ [createElement_div\<lparr>classList := [''line'']\<rparr>];
            line = trim raw;
            timeStamps = match_all line;
            beginningTimeStamp = match_beginning line;
            endingTimeStamp = match_ending line
        in do {
          (ns2, without2) \<leftarrow>
            (case timeStamps of
               ts0 # _ \<Rightarrow>
                 if without \<noteq> [] then do { ns \<leftarrow> close_lines ts0 without ns1; Some (ns, []) }
                 else Some (ns1, without)
             | [] \<Rightarrow> Some (ns1, without));
          (ns3, lastTime3) \<leftarrow>
            (case beginningTimeStamp of
               b0 # _ \<Rightarrow>
                 do { v \<leftarrow> decodeTimeStamp b0;
                      v' \<leftarrow> decodeTimeStamp b0;
                      Some (ns2[lineElement := (ns2 ! lineElement)\<lparr>data_start := Number v\<rparr>], v') }
             | [] \<Rightarrow>
                 Some (ns2[lineElement := (ns2 ! lineElement)\<lparr>data_start := Number lastTime\<rparr>],
                       lastTime));
          (ns4, lastTime4, without4) \<leftarrow>
            (case endingTimeStamp of
               e0 # _ \<Rightarrow>
                 do { v \<leftarrow> decodeTimeStamp e0;
                      v' \<leftarrow> decodeTimeStamp e0;
                      Some (ns3[lineElement := (ns3 ! lineElement)\<lparr>data_end := Number v\<rparr>], v',
                            without2) }
             | [] \<Rightarrow>
                 Some (ns3[lineElement := (ns3 ! lineElement)\<lparr>data_end := Infinity\<rparr>], lastTime3,
                       without2 @ [lineElement]));
          let text = remove_time_stamps line;
              text' = (if text = [] then ''&nbsp;'' else text)
          in Some (s\<lparr>nodes := ns4[lineElement := (ns4 ! lineElement)\<lparr>innerHTML := text'\<rparr>],
                      children := children s @ [lineElement],
                      lineElements := lineElements s @ [lineElement]\<rparr>,
                   lastTime4, without4)
        })"

fun parse_lines :: "string list \<Rightarrow> parse_state \<Rightarrow> parse_state option" where
  "parse_lines [] st = Some st"
| "parse_lines (l # ls) st = do { st' \<leftarrow> parse_line l st; parse_lines ls st' }"

definition parseLyrics :: "container option \<Rightarrow> rabbit_lyrics \<Rightarrow> rabbit_lyrics option" where
  \<comment> \<open>\<open>None\<close> for the container is a missing \<^verbatim>\<open>this.element\<close>; the result \<open>None\<close> is an
      exception thrown by \<^verbatim>\<open>decodeTimeStamp\<close>\<close>
  "parseLyrics el s =
     (case el of
        None \<Rightarrow> Some s
      | Some c \<Rightarrow>
          let lines = split_nl (trim (element_textContent c)) in
          if length lines \<le> 1 \<and> indexOf (element_innerHTML c) ''<div'' \<ge> 0 then Some s
          else do { (s', lastTime, without) \<leftarrow> parse_lines lines (s\<lparr>children := []\<rparr>, 0, []);
                    Some s' })"


subsection \<open>synchronizer, gotoLine and scroller\<close>

fun index_of :: "nat list \<Rightarrow> nat \<Rightarrow> int" where
  \<comment> \<open>\<^verbatim>\<open>this.lineElements.indexOf(element)\<close>: the first position of the node, or \<open>-1\<close>\<close>
  "index_of [] r = -1"
| "index_of (x # xs) r =
     (if x = r then 0 else (let i = index_of xs r in if i < 0 then -1 else i + 1))"

text \<open>
  The two blocks that both methods repeat for every line. The state of their loops is the
  nodes, \<^verbatim>\<open>changed\<close> and \<^verbatim>\<open>activeLineElements\<close>.
\<close>

type_synonym sync_state = "element list \<times> bool \<times> nat list"

definition set_active :: "nat \<Rightarrow> sync_state \<Rightarrow> sync_state" where
  "set_active r acc =
     (case acc of (ns, changed, activeLineElements) \<Rightarrow>
        if \<not> classList_contains (ns ! r) ''active''
        then (ns[r := classList_add (ns ! r) ''active''], True, activeLineElements @ [r])
        else (ns, changed, activeLineElements @ [r]))"

definition set_inactive :: "nat \<Rightarrow> sync_state \<Rightarrow> sync_state" where
  "set_inactive r acc =
     (case acc of (ns, changed, activeLineElements) \<Rightarrow>
        if classList_contains (ns ! r) ''active''
        then (ns[r := classList_remove (ns ! r) ''active''], True, activeLineElements)
        else (ns, changed, activeLineElements))"

definition clearInterval :: "nat option \<Rightarrow> nat list \<Rightarrow> nat list" where
  \<comment> \<open>on \<^verbatim>\<open>undefined\<close> or a timer that is no longer live it does nothing\<close>
  "clearInterval h live = (case h of None \<Rightarrow> live | Some i \<Rightarrow> removeAll i live)"

definition start_scroller :: "nat list \<Rightarrow> rabbit_lyrics \<Rightarrow> rabbit_lyrics" where
  \<comment> \<open>the block under \<^verbatim>\<open>if (changed && activeLineElements.length > 0)\<close>\<close>
  "start_scroller activeLineElements s =
     (case activeLineElements of
        [] \<Rightarrow> s
      | first # _ \<Rightarrow>
          let activeLinesOffsetTop =
                (offsetTop (nodes s ! first)
                 + offsetTop (nodes s ! last activeLineElements)
                 + offsetHeight (nodes s ! last activeLineElements)) / 2
          in s\<lparr>scrollTop := activeLinesOffsetTop - clientHeight s / 2,
               scrollerTimer := scrollerIntervalDuration s,
               scrollerInterval := Some (next_interval s),
               intervals := next_interval s # clearInterval (scrollerInterval s) (intervals s),
               next_interval := Suc (next_interval s)\<rparr>)"

definition sync_element :: "rat \<Rightarrow> int \<Rightarrow> nat list \<Rightarrow> sync_state \<Rightarrow> nat \<Rightarrow> sync_state" where
  "sync_element time cur les acc r =
     (let element = fst acc ! r in
        if js_ge time (data_start element) \<and> js_le time (data_end element)
           \<and> data_end element \<noteq> Infinity
        then set_active r acc
        else if cur \<ge> 0 \<and> index_of les r = cur then set_active r acc
        else set_inactive r acc)"

definition synchronizer :: "rabbit_lyrics \<Rightarrow> rabbit_lyrics option" where
  \<comment> \<open>\<open>None\<close> is the TypeError of \<^verbatim>\<open>this.mediaElement.currentTime\<close> without a media element\<close>
  "synchronizer s =
     (case mediaElement s of
        None \<Rightarrow> None
      | Some time \<Rightarrow>
          (case foldl (sync_element time (currentLine s) (lineElements s))
                  (nodes s, False, []) (lineElements s) of
             (ns, changed, activeLineElements) \<Rightarrow>
               let s' = s\<lparr>nodes := ns\<rparr> in
               Some (if changed \<and> activeLineElements \<noteq> []
                     then start_scroller activeLineElements s' else s')))"

type_synonym goto_state = "sync_state \<times> int"

definition goto_element :: "int \<Rightarrow> nat list \<Rightarrow> goto_state \<Rightarrow> nat \<Rightarrow> goto_state" where
  "goto_element line les st i =
     (case st of (acc, cur) \<Rightarrow>
        if line = int i then (set_active (les ! i) acc, line)
        else (set_inactive (les ! i) acc, cur))"

definition gotoLine :: "int \<Rightarrow> rabbit_lyrics \<Rightarrow> rabbit_lyrics" where
  "gotoLine line s =
     (case foldl (goto_element line (lineElements s))
             ((nodes s, False, []), currentLine s) [0..<length (lineElements s)] of
        ((ns, changed, activeLineElements), cur) \<Rightarrow>
          let s' = s\<lparr>nodes := ns, currentLine := cur\<rparr> in
          if changed \<and> activeLineElements \<noteq> []
          then start_scroller activeLineElements s' else s')"

definition scroller :: "rabbit_lyrics \<Rightarrow> rabbit_lyrics" where
  "scroller s =
     (if scrollerTimer s \<le> 0
      then s\<lparr>intervals := clearInterval (scrollerInterval s) (intervals s)\<rparr>
      else let distance = scrollTop s - element_scrollTop s;
               movement = distance * scrollerIntervalStep s / scrollerTimer s
           in s\<lparr>element_scrollTop := element_scrollTop s + movement,
                scrollerTimer := scrollerTimer s - scrollerIntervalStep s\<rparr>)"

text \<open>
  The second source file (\<^verbatim>\<open>src/unnamed/part_000\<close>) holds an older \<^verbatim>\<open>synchronizer\<close>:
  it has no explicit line and does not look at \<^verbatim>\<open>Infinity\<close>.
\<close>

definition sync_element_part_000 :: "rat \<Rightarrow> sync_state \<Rightarrow> nat \<Rightarrow> sync_state" where
  "sync_element_part_000 time acc r =
     (let element = fst acc ! r in
        if js_ge time (data_start element) \<and> js_le time (data_end element)
        then set_active r acc
        else set_inactive r acc)"

definition synchronizer_part_000 :: "rabbit_lyrics \<Rightarrow> rabbit_lyrics option" where
  "synchronizer_part_000 s =
     (case mediaElement s of
        None \<Rightarrow> None
      | Some time \<Rightarrow>
          (case foldl (sync_element_part_000 time) (nodes s, False, []) (lineElements s) of
             (ns, changed, activeLineElements) \<Rightarrow>
               let s' = s\<lparr>nodes := ns\<rparr> in
               Some (if changed \<and> activeLineElements \<noteq> []
                     then start_scroller activeLineElements s' else s')))"

text \<open>
  A state is well formed when \<open>lineElements\<close> refers to existing nodes, each once: every
  line is a node of its own, as \<^verbatim>\<open>parseLyrics\<close> creates them.
\<close>

definition wf :: "rabbit_lyrics \<Rightarrow> bool" where
  "wf s = (distinct (lineElements s) \<and> list_all (\<lambda>r. r < length (nodes s)) (lineElements s))"

definition active :: "rabbit_lyrics \<Rightarrow> nat \<Rightarrow> bool" where
  \<comment> \<open>the active flag of line \<open>i\<close>\<close>
  "active s i = classList_contains (nodes s ! (lineElements s ! i)) ''active''"

definition line_start :: "rabbit_lyrics \<Rightarrow> nat \<Rightarrow> jsval" where
  "line_start s i = data_start (nodes s ! (lineElements s ! i))"

definition line_end :: "rabbit_lyrics \<Rightarrow> nat \<Rightarrow> jsval" where
  "line_end s i = data_end (nodes s ! (lineElements s ! i))"


subsection \<open>The scenarios\<close>

text \<open>
  An object as the constructor leaves it before it calls \<^verbatim>\<open>parseLyrics\<close> (no line yet,
  no explicit line, 200 ms of animation in steps of 10 ms), the container of the first
  scenario and the object after parsing it; a time update of the media element; a sweep
  of the playback position, keeping the state after every update; the number of times a
  flag rises and falls along a list of its values; and an object whose animation has
  just been armed with target 100 from offset 0.
\<close>

definition scenario_0 :: rabbit_lyrics where
  "scenario_0 =
     \<lparr>nodes = [], children = [], lineElements = [], currentLine = -1, mediaElement = Some 0,
      clientHeight = 100, element_scrollTop = 0, scrollTop = 0, scrollerTimer = 0,
      scrollerInterval = None, scrollerIntervalDuration = 200, scrollerIntervalStep = 10,
      intervals = [], next_interval = 1\<rparr>"

definition scenario_1_text :: container where
  "scenario_1_text =
     \<lparr>element_textContent = ''[0:01.00]Hello'' @ [CHR 0x0A] @ ''[0:03.50]World'',
      element_innerHTML = ''[0:01.00]Hello'' @ [CHR 0x0A] @ ''[0:03.50]World''\<rparr>"

definition scenario_1 :: rabbit_lyrics where
  "scenario_1 = scenario_0
     \<lparr>nodes := [\<lparr>classList = [''line''], data_start = Number 1, data_end = Number (7 / 2),
                   innerHTML = ''Hello'', offsetTop = 0, offsetHeight = 0\<rparr>,
                 \<lparr>classList = [''line''], data_start = Number (7 / 2), data_end = Infinity,
                   innerHTML = ''World'', offsetTop = 0, offsetHeight = 0\<rparr>],
      children := [0, 1], lineElements := [0, 1]\<rparr>"

definition timeupdate :: "rat \<Rightarrow> rabbit_lyrics \<Rightarrow> rabbit_lyrics option" where
  "timeupdate t s = synchronizer (s\<lparr>mediaElement := Some t\<rparr>)"

definition timeupdate_part_000 :: "rat \<Rightarrow> rabbit_lyrics \<Rightarrow> rabbit_lyrics option" where
  "timeupdate_part_000 t s = synchronizer_part_000 (s\<lparr>mediaElement := Some t\<rparr>)"

fun sweep :: "rat list \<Rightarrow> rabbit_lyrics \<Rightarrow> rabbit_lyrics list option" where
  "sweep [] s = Some []"
| "sweep (t # ts) s = do { s' \<leftarrow> timeupdate t s; rest \<leftarrow> sweep ts s'; Some (s' # rest) }"

fun rises :: "bool list \<Rightarrow> nat" where
  "rises (x # y # zs) = (if \<not> x \<and> y then 1 else 0) + rises (y # zs)"
| "rises _ = 0"

fun falls :: "bool list \<Rightarrow> nat" where
  "falls (x # y # zs) = (if x \<and> \<not> y then 1 else 0) + falls (y # zs)"
| "falls _ = 0"

definition scenario_6 :: rabbit_lyrics where
  "scenario_6 = scenario_1\<lparr>scrollTop := 100, scrollerTimer := 200, scrollerInterval := Some 1, intervals := [1]\<rparr>"

text \<open>The lines of the first scenario, whatever the flags and the animation are.\<close>

definition scenario_1_lines :: "rabbit_lyrics \<Rightarrow> bool" where
  "scenario_1_lines s =
     (length (nodes s) = 2 \<and> lineElements s = [0, 1] \<and> currentLine s = -1
      \<and> line_start s 0 = Number 1 \<and> line_end s 0 = Number (7 / 2)
      \<and> line_start s 1 = Number (7 / 2) \<and> line_end s 1 = Infinity)"

text \<open>The container of the first scenario as the browser reports it after the parse.\<close>

definition scenario_1_rendered :: container where
  \<open>scenario_1_rendered =
     \<lparr>element_textContent = ''HelloWorld'',
      element_innerHTML =
        ''<div class="line" data-start="1" data-end="3.5">Hello</div><div class="line" data-start="3.5" data-end="Infinity">World</div>''\<rparr>\<close>

text \<open>A text whose first line is closed by a time stamp two lines below.\<close>

definition scenario_2_text :: container where
  "scenario_2_text =
     \<lparr>element_textContent = ''[0:01.00]One'' @ [CHR 0x0A] @ ''Two'' @ [CHR 0x0A]
                            @ ''Three[0:05.00]three'' @ [CHR 0x0A] @ ''Four'',
      element_innerHTML = ''[0:01.00]One'' @ [CHR 0x0A] @ ''Two'' @ [CHR 0x0A]
                          @ ''Three[0:05.00]three'' @ [CHR 0x0A] @ ''Four''\<rparr>"

definition time_stamp_values :: "string \<Rightarrow> rat list" where
  \<comment> \<open>the values of the time stamps of a text, in the order they appear\<close>
  "time_stamp_values text =
     concat (map (\<lambda>l. List.map_filter decodeTimeStamp (match_all (trim l))) (split_nl (trim text)))"

subsection \<open>Notions for the proofs\<close>

text \<open>
  The test of the synchronizer on the time window of a line; the value of a time stamp
  that the pattern matched; the effect of closing the lines without ending time; and the
  start, the end and the next \<^verbatim>\<open>lastTime\<close> that one turn of the parser's loop gives a line.
\<close>

definition time_active :: "rat \<Rightarrow> element \<Rightarrow> bool" where
  "time_active t e = (js_ge t (data_start e) \<and> js_le t (data_end e) \<and> data_end e \<noteq> Infinity)"

definition stamp_value :: "string \<Rightarrow> rat" where
  "stamp_value tok = (case decodeTimeStamp tok of Some v \<Rightarrow> v | None \<Rightarrow> 0)"

fun close_all :: "rat \<Rightarrow> nat list \<Rightarrow> element list \<Rightarrow> element list" where
  "close_all v [] ns = ns"
| "close_all v (r # rs) ns = close_all v rs (ns[r := (ns ! r)\<lparr>data_end := Number v\<rparr>])"

definition line_start_value :: "rat \<Rightarrow> string \<Rightarrow> rat" where
  "line_start_value lt line = (case match_beginning line of b # _ \<Rightarrow> stamp_value b | [] \<Rightarrow> lt)"

definition line_end_value :: "string \<Rightarrow> jsval" where
  "line_end_value line = (case match_ending line of e # _ \<Rightarrow> Number (stamp_value e) | [] \<Rightarrow> Infinity)"

definition next_lastTime :: "rat \<Rightarrow> string \<Rightarrow> rat" where
  "next_lastTime lt line =
     (case match_ending line of e # _ \<Rightarrow> stamp_value e | [] \<Rightarrow> line_start_value lt line)"

text \<open>
  What the loop computes, as functions of the raw lines: the first time stamp of the
  first line that has one, the end and the start of every line, and the lines still
  without ending time when the loop is over.
\<close>

fun first_stamp :: "string list \<Rightarrow> string option" where
  "first_stamp [] = None"
| "first_stamp (l # ls) = (case match_all (trim l) of t # _ \<Rightarrow> Some t | [] \<Rightarrow> first_stamp ls)"

fun line_ends :: "string list \<Rightarrow> jsval list" where
  "line_ends [] = []"
| "line_ends (l # ls) =
     (case match_ending (trim l) of
        e # _ \<Rightarrow> Number (stamp_value e)
      | [] \<Rightarrow> (case first_stamp ls of Some t \<Rightarrow> Number (stamp_value t) | None \<Rightarrow> Infinity))
     # line_ends ls"

fun line_starts :: "rat \<Rightarrow> string list \<Rightarrow> rat list" where
  "line_starts lt [] = []"
| "line_starts lt (l # ls) =
     line_start_value lt (trim l) # line_starts (next_lastTime lt (trim l)) ls"

fun still_without :: "nat \<Rightarrow> string list \<Rightarrow> nat list" where
  "still_without n [] = []"
| "still_without n (l # ls) =
     (if match_ending (trim l) = [] \<and> first_stamp ls = None then [n] else [])
     @ still_without (Suc n) ls"

text \<open>The values of the time stamps of a list of lines, in the order they appear.\<close>

definition stamp_values :: "string list \<Rightarrow> rat list" where
  "stamp_values ls = concat (map (\<lambda>l. map stamp_value (match_all (trim l))) ls)"

section \<open>The time stamp codec\<close>

lemma parseInt_decimal: "\<forall>c\<in>set ds. is_digit c \<Longrightarrow> parseInt ds = decimal ds"
proof (induction ds rule: rev_induct)
  case Nil
  then show ?case by (simp add: parseInt_def decimal_def)
next
  case (snoc c ds)
  have tw: "takeWhile is_digit (ds @ [c]) = ds @ [c]" "takeWhile is_digit ds = ds"
    using snoc.prems by (simp_all add: takeWhile_eq_all_conv)
  have "decimal (ds @ [c]) = 10 * decimal ds + digit_value c"
  proof -
    have "(\<Sum>i<length ds. digit_value ((ds @ [c]) ! i) * 10 ^ (length ds - i))
        = (\<Sum>i<length ds. 10 * (digit_value (ds ! i) * 10 ^ (length ds - 1 - i)))"
      by (rule sum.cong) (auto simp: nth_append Suc_diff_Suc simp flip: power_Suc)
    then show ?thesis
      by (simp add: decimal_def sum_distrib_left nth_append)
  qed
  moreover have "parseInt (ds @ [c]) = 10 * parseInt ds + digit_value c"
    by (simp add: parseInt_def tw)
  ultimately show ?case using snoc by simp
qed

lemma not_digit_punct [simp]:
  "\<not> is_digit CHR ''[''" "\<not> is_digit CHR '':''" "\<not> is_digit CHR ''.''" "\<not> is_digit CHR '']''"
  by (simp_all add: is_digit_def)

lemma digits_then:
  assumes "\<forall>c\<in>set ds. is_digit c" "\<not> is_digit x"
  shows "takeWhile is_digit (ds @ x # r) = ds" "dropWhile is_digit (ds @ x # r) = x # r"
  using assms by (induction ds) auto

lemma digits_before_digits:
  assumes "ds \<noteq> []" "\<forall>c\<in>set ds. is_digit c" "\<not> is_digit x"
  shows "digits_before x (ds @ x # r) = Some (ds, r)"
  using assms by (simp add: digits_before_def digits_then)

lemma match_here_token:
  assumes "m \<noteq> []" "a \<noteq> []" "b \<noteq> []"
    and "\<forall>c\<in>set m. is_digit c" "\<forall>c\<in>set a. is_digit c" "\<forall>c\<in>set b. is_digit c"
  shows "match_here (CHR ''['' # m @ CHR '':'' # a @ CHR ''.'' # b @ CHR '']'' # r)
       = Some ((CHR ''['' # m @ CHR '':'' # a @ CHR ''.'' # b @ [CHR '']''], m, a @ CHR ''.'' # b), r)"
  using assms by (simp add: match_here_def digits_before_digits)

lemma parseFloat_decimal:
  assumes "\<forall>c\<in>set a. is_digit c" "\<forall>c\<in>set b. is_digit c"
  shows "parseFloat (a @ CHR ''.'' # b) = of_nat (decimal a) + of_nat (decimal b) / 10 ^ length b"
proof -
  have ta: "takeWhile is_digit a = a" and tb: "takeWhile is_digit b = b"
    using assms by (simp_all add: takeWhile_eq_all_conv)
  have pa: "parseInt (a @ CHR ''.'' # b) = parseInt a"
    using assms digits_then(1)[of a "CHR ''.''" b] by (simp add: parseInt_def ta)
  have dr: "dropWhile is_digit (a @ CHR ''.'' # b) = CHR ''.'' # b"
    using assms digits_then(2)[of a "CHR ''.''" b] by simp
  have "parseFloat (a @ CHR ''.'' # b) = of_nat (parseInt a) + of_nat (parseInt b) / 10 ^ length b"
    unfolding parseFloat_def dr by (simp add: pa tb)
  then show ?thesis
    by (simp add: parseInt_decimal assms)
qed




section \<open>The active lines\<close>

subsection \<open>Activating and deactivating one line\<close>

lemma classList_contains_add [simp]: "classList_contains (classList_add e c) c"
  by (simp add: classList_contains_def classList_add_def)

lemma classList_contains_remove [simp]: "\<not> classList_contains (classList_remove e c) c"
  by (simp add: classList_contains_def classList_remove_def)

lemma data_classList_add [simp]:
  "data_start (classList_add e c) = data_start e" "data_end (classList_add e c) = data_end e"
  by (simp_all add: classList_add_def)

lemma data_classList_remove [simp]:
  "data_start (classList_remove e c) = data_start e" "data_end (classList_remove e c) = data_end e"
  by (simp_all add: classList_remove_def)

lemma length_set_active [simp]: "length (fst (set_active r acc)) = length (fst acc)"
  by (cases acc) (simp add: set_active_def)

lemma length_set_inactive [simp]: "length (fst (set_inactive r acc)) = length (fst acc)"
  by (cases acc) (simp add: set_inactive_def)

lemma set_active_same: "r < length (fst acc) \<Longrightarrow> classList_contains (fst (set_active r acc) ! r) ''active''"
  by (cases acc) (simp add: set_active_def)

lemma set_inactive_same: "r < length (fst acc) \<Longrightarrow> \<not> classList_contains (fst (set_inactive r acc) ! r) ''active''"
  by (cases acc) (simp add: set_inactive_def)

lemma set_active_other: "r' \<noteq> r \<Longrightarrow> fst (set_active r acc) ! r' = fst acc ! r'"
  by (cases acc) (simp add: set_active_def)

lemma set_inactive_other: "r' \<noteq> r \<Longrightarrow> fst (set_inactive r acc) ! r' = fst acc ! r'"
  by (cases acc) (simp add: set_inactive_def)

lemma nth_update_data:
  assumes "data_start e = data_start (ns ! r)" "data_end e = data_end (ns ! r)"
  shows "data_start (ns[r := e] ! r') = data_start (ns ! r')"
    and "data_end (ns[r := e] ! r') = data_end (ns ! r')"
proof -
  show "data_start (ns[r := e] ! r') = data_start (ns ! r')"
  proof (cases "r < length ns")
    case True
    then show ?thesis using assms by (simp add: nth_list_update)
  next
    case False
    then show ?thesis by (simp add: not_less list_update_beyond)
  qed
  show "data_end (ns[r := e] ! r') = data_end (ns ! r')"
  proof (cases "r < length ns")
    case True
    then show ?thesis using assms by (simp add: nth_list_update)
  next
    case False
    then show ?thesis by (simp add: not_less list_update_beyond)
  qed
qed

lemma set_active_data:
  "data_start (fst (set_active r acc) ! r') = data_start (fst acc ! r')"
  "data_end (fst (set_active r acc) ! r') = data_end (fst acc ! r')"
  by (cases acc, simp add: set_active_def nth_update_data)+

lemma set_inactive_data:
  "data_start (fst (set_inactive r acc) ! r') = data_start (fst acc ! r')"
  "data_end (fst (set_inactive r acc) ! r') = data_end (fst acc ! r')"
  by (cases acc, simp add: set_inactive_def nth_update_data)+

lemma set_active_list: "snd (snd (set_active r acc)) = snd (snd acc) @ [r]"
  by (cases acc) (simp add: set_active_def)

lemma set_inactive_list: "snd (snd (set_inactive r acc)) = snd (snd acc)"
  by (cases acc) (simp add: set_inactive_def)

lemma index_of_nth: "distinct xs \<Longrightarrow> i < length xs \<Longrightarrow> index_of xs (xs ! i) = int i"
proof (induction xs arbitrary: i)
  case Nil
  then show ?case by simp
next
  case (Cons x xs)
  show ?case
  proof (cases i)
    case 0
    then show ?thesis by simp
  next
    case (Suc j)
    with Cons.prems have "xs ! j \<in> set xs" "x \<notin> set xs" "index_of xs (xs ! j) = int j"
      using Cons.IH [of j] by auto
    with Suc show ?thesis by (auto simp: Let_def)
  qed
qed

lemma scenario_1_parsed: "parseLyrics (Some scenario_1_text) scenario_0 = Some scenario_1"
  by code_simp

lemma wf_scenario_1: "wf scenario_1"
  by code_simp

subsection \<open>The loop of synchronizer\<close>

lemma sync_element_facts:
  "length (fst (sync_element t cur les acc r)) = length (fst acc)"
  "data_start (fst (sync_element t cur les acc r) ! r') = data_start (fst acc ! r')"
  "data_end (fst (sync_element t cur les acc r) ! r') = data_end (fst acc ! r')"
  "r' \<noteq> r \<Longrightarrow> fst (sync_element t cur les acc r) ! r' = fst acc ! r'"
  "r < length (fst acc) \<Longrightarrow>
     classList_contains (fst (sync_element t cur les acc r) ! r) ''active''
     = (time_active t (fst acc ! r) \<or> (cur \<ge> 0 \<and> index_of les r = cur))"
  by (auto simp: sync_element_def Let_def set_active_data set_inactive_data set_active_other
      set_inactive_other set_active_same set_inactive_same time_active_def)

lemma sync_fold:
  assumes "\<forall>r\<in>set rs. r < length ns"
  shows "length (fst (foldl (sync_element t cur les) (ns, ch, act) rs)) = length ns
    \<and> (\<forall>r'. data_start (fst (foldl (sync_element t cur les) (ns, ch, act) rs) ! r') = data_start (ns ! r')
          \<and> data_end (fst (foldl (sync_element t cur les) (ns, ch, act) rs) ! r') = data_end (ns ! r'))
    \<and> (\<forall>r\<in>set rs. classList_contains (fst (foldl (sync_element t cur les) (ns, ch, act) rs) ! r) ''active''
          = (time_active t (ns ! r) \<or> (cur \<ge> 0 \<and> index_of les r = cur)))"
  using assms
proof (induction rs rule: rev_induct)
  case Nil
  then show ?case by simp
next
  case (snoc x xs)
  let ?a = "foldl (sync_element t cur les) (ns, ch, act) xs"
  from snoc have ih: "length (fst ?a) = length ns"
    "\<And>r'. data_start (fst ?a ! r') = data_start (ns ! r')"
    "\<And>r'. data_end (fst ?a ! r') = data_end (ns ! r')"
    "\<And>r. r \<in> set xs \<Longrightarrow> classList_contains (fst ?a ! r) ''active''
          = (time_active t (ns ! r) \<or> (cur \<ge> 0 \<and> index_of les r = cur))"
    by auto
  have x: "x < length (fst ?a)" using snoc.prems ih(1) by simp
  have ta: "time_active t (fst ?a ! x) = time_active t (ns ! x)"
    by (simp add: time_active_def ih)
  let ?b = "sync_element t cur les ?a x"
  have fold: "foldl (sync_element t cur les) (ns, ch, act) (xs @ [x]) = ?b"
    by simp
  have l: "length (fst ?b) = length ns"
    by (simp only: sync_element_facts(1) ih(1))
  have d: "\<And>r'. data_start (fst ?b ! r') = data_start (ns ! r') \<and> data_end (fst ?b ! r') = data_end (ns ! r')"
    by (simp only: sync_element_facts(2,3) ih(2,3))
  have c: "classList_contains (fst ?b ! r) ''active''
          = (time_active t (ns ! r) \<or> (cur \<ge> 0 \<and> index_of les r = cur))"
    if "r \<in> set (xs @ [x])" for r
  proof (cases "r = x")
    case True
    then show ?thesis using sync_element_facts(5)[OF x, of t cur les] ta by simp
  next
    case False
    with that have "r \<in> set xs" by simp
    then show ?thesis using ih(4)[of r] sync_element_facts(4)[OF False, of t cur les ?a] by simp
  qed
  show ?case
    unfolding fold using l d c by blast
qed


lemma wf_nth: "wf s \<Longrightarrow> i < length (lineElements s) \<Longrightarrow> lineElements s ! i < length (nodes s)"
  by (simp add: wf_def list_all_length)

lemma synchronizer_result:
  assumes "wf s" "mediaElement s = Some t"
  shows "\<exists>s'. synchronizer s = Some s' \<and> lineElements s' = lineElements s
     \<and> currentLine s' = currentLine s \<and> mediaElement s' = mediaElement s
     \<and> length (nodes s') = length (nodes s)
     \<and> (\<forall>i. line_start s' i = line_start s i \<and> line_end s' i = line_end s i)
     \<and> (\<forall>i<length (lineElements s). active s' i
           = (time_active t (nodes s ! (lineElements s ! i))
              \<or> (currentLine s \<ge> 0 \<and> int i = currentLine s)))"
proof -
  let ?les = "lineElements s"
  let ?a = "foldl (sync_element t (currentLine s) ?les) (nodes s, False, []) ?les"
  obtain ns ch act where a: "?a = (ns, ch, act)" by (cases ?a)
  have v: "\<forall>r\<in>set ?les. r < length (nodes s)"
    using assms(1) by (simp add: wf_def list_all_iff)
  note f = sync_fold [OF v, of t "currentLine s" ?les False "[]", unfolded a, simplified]
  define s' where "s' = (let s1 = s\<lparr>nodes := ns\<rparr> in if ch \<and> act \<noteq> [] then start_scroller act s1 else s1)"
  have s: "synchronizer s = Some s'"
    by (simp add: synchronizer_def assms(2) a s'_def Let_def)
  have n: "nodes s' = ns" "lineElements s' = ?les" "currentLine s' = currentLine s"
    "mediaElement s' = mediaElement s"
    by (auto simp: s'_def start_scroller_def Let_def split: list.splits)
  have "active s' i = (time_active t (nodes s ! (?les ! i)) \<or> (currentLine s \<ge> 0 \<and> int i = currentLine s))"
    if "i < length ?les" for i
  proof -
    have "?les ! i \<in> set ?les" using that by simp
    moreover have "index_of ?les (?les ! i) = int i"
      using assms(1) that by (simp add: wf_def index_of_nth)
    ultimately show ?thesis
      using f by (simp add: active_def n)
  qed
  then show ?thesis
    using s n f by (simp add: line_start_def line_end_def)
qed

text \<open>
  C1. When the synchronizer reads the position \<open>t\<close>, the active flag of a parsed line
  (start a number, end a number or Infinity) becomes true exactly when its end is a number
  and \<open>t\<close> lies between start and end inclusive, or when an explicit line is set
  (\<open>currentLine\<close> is not negative) and is this line; otherwise it becomes false. A line
  whose end is Infinity is active only as the explicit line.
\<close>

theorem synchronizer_active:
  assumes "wf s" "mediaElement s = Some t" "i < length (lineElements s)"
    and "line_start s i = Number a" "line_end s i \<noteq> Undefined"
  shows "\<exists>s'. synchronizer s = Some s'
     \<and> (active s' i = ((\<exists>b. line_end s i = Number b \<and> a \<le> t \<and> t \<le> b)
                         \<or> (currentLine s \<ge> 0 \<and> currentLine s = int i)))
     \<and> (line_end s i = Infinity \<longrightarrow> active s' i = (currentLine s \<ge> 0 \<and> currentLine s = int i))"
proof -
  from synchronizer_result [OF assms(1,2)] obtain s' where
    s: "synchronizer s = Some s'"
    and f: "\<forall>i<length (lineElements s). active s' i
           = (time_active t (nodes s ! (lineElements s ! i))
              \<or> (currentLine s \<ge> 0 \<and> int i = currentLine s))"
    by blast
  have "time_active t (nodes s ! (lineElements s ! i)) = (\<exists>b. line_end s i = Number b \<and> a \<le> t \<and> t \<le> b)"
    using assms(4,5)
    by (cases "line_end s i") (auto simp: time_active_def line_start_def line_end_def js_ge_def js_le_def)
  then show ?thesis
    using s f assms(3) by auto
qed



theorem synchronizer_active_witness:
  "wf (scenario_1\<lparr>mediaElement := Some 2\<rparr>)
   \<and> (\<exists>s'. synchronizer (scenario_1\<lparr>mediaElement := Some 2\<rparr>) = Some s' \<and> active s' 0)
   \<and> (\<exists>s'. synchronizer (scenario_1\<lparr>mediaElement := Some 4\<rparr>) = Some s' \<and> \<not> active s' (Suc 0))"
proof -
  let ?s = "scenario_1\<lparr>mediaElement := Some 2\<rparr>"
  let ?u = "scenario_1\<lparr>mediaElement := Some 4\<rparr>"
  have h: "wf ?s" "mediaElement ?s = Some 2" "wf ?u" "mediaElement ?u = Some 4"
    by code_simp+
  have l0: "0 < length (lineElements ?s)" "line_start ?s 0 = Number 1" "line_end ?s 0 \<noteq> Undefined"
    by code_simp+
  have m1: "Suc 0 < length (lineElements ?u)" "line_start ?u (Suc 0) = Number (7 / 2)"
    "line_end ?u (Suc 0) \<noteq> Undefined"
    by code_simp+
  have e: "line_end ?s 0 = Number (7 / 2)" "line_end ?u (Suc 0) = Infinity"
    "currentLine ?s = -1" "currentLine ?u = -1"
    by code_simp+
  have a: "\<exists>s'. synchronizer ?s = Some s' \<and> active s' 0"
  proof -
    from synchronizer_active [OF h(1,2) l0] obtain s' where
      s: "synchronizer ?s = Some s'"
      and f: "active s' 0 = ((\<exists>b. line_end ?s 0 = Number b \<and> 1 \<le> (2::rat) \<and> 2 \<le> b)
                       \<or> (currentLine ?s \<ge> 0 \<and> currentLine ?s = int 0))"
      by blast
    have "\<exists>b. line_end ?s 0 = Number b \<and> 1 \<le> (2::rat) \<and> 2 \<le> b"
      unfolding e(1) by (intro exI [of _ "7 / 2"]) simp
    with s f show ?thesis by blast
  qed
  have b: "\<exists>s'. synchronizer ?u = Some s' \<and> \<not> active s' (Suc 0)"
    using synchronizer_active [OF h(3,4) m1] e(2,4) by simp
  show ?thesis
    using h(1) a b by blast
qed

subsection \<open>The loop of gotoLine\<close>

lemma goto_element_facts:
  "length (fst (fst (goto_element line les st i))) = length (fst (fst st))"
  "r' \<noteq> les ! i \<Longrightarrow> fst (fst (goto_element line les st i)) ! r' = fst (fst st) ! r'"
  "les ! i < length (fst (fst st)) \<Longrightarrow>
     classList_contains (fst (fst (goto_element line les st i)) ! (les ! i)) ''active'' = (line = int i)"
  "snd (snd (fst (goto_element line les st i)))
     = snd (snd (fst st)) @ (if line = int i then [les ! i] else [])"
  "snd (goto_element line les st i) = (if line = int i then line else snd st)"
  "data_start (fst (fst (goto_element line les st i)) ! r') = data_start (fst (fst st) ! r')"
  "data_end (fst (fst (goto_element line les st i)) ! r') = data_end (fst (fst st) ! r')"
  by (cases st; simp add: goto_element_def set_active_other set_inactive_other set_active_same
      set_inactive_same set_active_list set_inactive_list set_active_data set_inactive_data)+

lemma goto_fold:
  assumes "distinct les" "\<forall>r\<in>set les. r < length ns" "n \<le> length les"
  shows "length (fst (fst (foldl (goto_element line les) ((ns, False, []), cur) [0..<n]))) = length ns
    \<and> (\<forall>j<n. classList_contains
          (fst (fst (foldl (goto_element line les) ((ns, False, []), cur) [0..<n])) ! (les ! j)) ''active''
          = (line = int j))
    \<and> snd (snd (fst (foldl (goto_element line les) ((ns, False, []), cur) [0..<n])))
        = (if 0 \<le> line \<and> line < int n then [les ! nat line] else [])
    \<and> snd (foldl (goto_element line les) ((ns, False, []), cur) [0..<n])
        = (if 0 \<le> line \<and> line < int n then line else cur)
    \<and> (\<forall>r'. data_start (fst (fst (foldl (goto_element line les) ((ns, False, []), cur) [0..<n])) ! r') = data_start (ns ! r')
          \<and> data_end (fst (fst (foldl (goto_element line les) ((ns, False, []), cur) [0..<n])) ! r') = data_end (ns ! r'))"
  using assms(3)
proof (induction n)
  case 0
  then show ?case by simp
next
  case (Suc n)
  let ?a = "foldl (goto_element line les) ((ns, False, []), cur) [0..<n]"
  let ?b = "goto_element line les ?a n"
  have fold: "foldl (goto_element line les) ((ns, False, []), cur) [0..<Suc n] = ?b"
    by simp
  from Suc have n: "n < length les" by simp
  from Suc have ih: "length (fst (fst ?a)) = length ns"
    "\<And>j. j < n \<Longrightarrow> classList_contains (fst (fst ?a) ! (les ! j)) ''active'' = (line = int j)"
    "snd (snd (fst ?a)) = (if 0 \<le> line \<and> line < int n then [les ! nat line] else [])"
    "snd ?a = (if 0 \<le> line \<and> line < int n then line else cur)"
    "\<And>r'. data_start (fst (fst ?a) ! r') = data_start (ns ! r')"
    "\<And>r'. data_end (fst (fst ?a) ! r') = data_end (ns ! r')"
    by simp_all
  have v: "les ! n < length (fst (fst ?a))"
    using assms(2) n ih(1) by simp
  have l: "length (fst (fst ?b)) = length ns"
    by (simp only: goto_element_facts(1) ih(1))
  have c: "classList_contains (fst (fst ?b) ! (les ! j)) ''active'' = (line = int j)" if "j < Suc n" for j
  proof (cases "j = n")
    case True
    then show ?thesis using goto_element_facts(3)[OF v, of line] by simp
  next
    case False
    with that have j: "j < n" by simp
    with n assms(1) have "les ! j \<noteq> les ! n"
      by (simp add: nth_eq_iff_index_eq)
    then show ?thesis
      using goto_element_facts(2)[of "les ! j" les n line ?a] ih(2)[OF j] by simp
  qed
  have a: "snd (snd (fst ?b)) = (if 0 \<le> line \<and> line < int (Suc n) then [les ! nat line] else [])"
    unfolding goto_element_facts(4) ih(3) by auto
  have k: "snd ?b = (if 0 \<le> line \<and> line < int (Suc n) then line else cur)"
    unfolding goto_element_facts(5) ih(4) by auto
  have d: "\<And>r'. data_start (fst (fst ?b) ! r') = data_start (ns ! r') \<and> data_end (fst (fst ?b) ! r') = data_end (ns ! r')"
    by (simp only: goto_element_facts(6,7) ih(5,6))
  show ?case
    unfolding fold using l c a k d by blast
qed

lemma gotoLine_result:
  assumes "wf s"
  shows "(\<forall>j<length (lineElements s). active (gotoLine line s) j = (line = int j))
     \<and> lineElements (gotoLine line s) = lineElements s
     \<and> currentLine (gotoLine line s)
        = (if 0 \<le> line \<and> line < int (length (lineElements s)) then line else currentLine s)
     \<and> (\<forall>j. line_start (gotoLine line s) j = line_start s j \<and> line_end (gotoLine line s) j = line_end s j)
     \<and> (\<not> (0 \<le> line \<and> line < int (length (lineElements s)))
          \<longrightarrow> gotoLine line s = s\<lparr>nodes := nodes (gotoLine line s)\<rparr>)"
proof -
  let ?les = "lineElements s"
  let ?a = "foldl (goto_element line ?les) ((nodes s, False, []), currentLine s) [0..<length ?les]"
  obtain ns ch act c where a: "?a = ((ns, ch, act), c)" by (cases ?a) auto
  have v: "\<forall>r\<in>set ?les. r < length (nodes s)" and d: "distinct ?les"
    using assms(1) by (simp_all add: wf_def list_all_iff)
  note f = goto_fold [OF d v order_refl, of line "currentLine s", unfolded a, simplified]
  define s1 where "s1 = s\<lparr>nodes := ns, currentLine := c\<rparr>"
  have g: "gotoLine line s = (if ch \<and> act \<noteq> [] then start_scroller act s1 else s1)"
    by (simp add: gotoLine_def a s1_def Let_def)
  have n: "nodes (gotoLine line s) = ns" "lineElements (gotoLine line s) = ?les"
    "currentLine (gotoLine line s) = c"
    by (auto simp: g s1_def start_scroller_def Let_def split: list.splits)
  have o: "gotoLine line s = s\<lparr>nodes := ns\<rparr>" if "\<not> (0 \<le> line \<and> line < int (length ?les))"
  proof -
    from that f have "act = []" "c = currentLine s" by auto
    then show ?thesis by (simp add: g s1_def)
  qed
  show ?thesis
    using f o by (simp add: active_def n line_start_def line_end_def)
qed

text \<open>
  C5. For an index within the lines, gotoLine leaves exactly that line active: the line
  is active and every other line is inactive, whatever the playback position and the
  time windows of the lines are, and the index becomes the explicit line.
\<close>

theorem gotoLine_exclusive:
  assumes "wf s" "i < length (lineElements s)"
  shows "active (gotoLine (int i) s) i
     \<and> (\<forall>j<length (lineElements s). j \<noteq> i \<longrightarrow> \<not> active (gotoLine (int i) s) j)
     \<and> currentLine (gotoLine (int i) s) = int i"
  using gotoLine_result [OF assms(1), of "int i"] assms(2) by simp

theorem gotoLine_exclusive_witness:
  "wf (scenario_1\<lparr>mediaElement := Some 2\<rparr>)
   \<and> active (gotoLine 1 (scenario_1\<lparr>mediaElement := Some 2\<rparr>)) (Suc 0)
   \<and> \<not> active (gotoLine 1 (scenario_1\<lparr>mediaElement := Some 2\<rparr>)) 0
   \<and> currentLine (gotoLine 1 (scenario_1\<lparr>mediaElement := Some 2\<rparr>)) = 1"
proof -
  let ?s = "scenario_1\<lparr>mediaElement := Some 2\<rparr>"
  have h: "wf ?s" "Suc 0 < length (lineElements ?s)"
    by code_simp+
  have l: "0 < length (lineElements ?s)"
    by code_simp
  from gotoLine_exclusive [OF h] l show ?thesis
    using h(1) by simp
qed

text \<open>
  C10. For an index outside the lines, gotoLine makes every line inactive and changes
  nothing else: the explicit line, the target and the timer of the animation and the
  interval timers stay as they were.
\<close>

theorem gotoLine_out_of_range:
  assumes "wf s" "line < 0 \<or> int (length (lineElements s)) \<le> line"
  shows "(\<forall>j<length (lineElements s). \<not> active (gotoLine line s) j)
     \<and> gotoLine line s = s\<lparr>nodes := nodes (gotoLine line s)\<rparr>
     \<and> currentLine (gotoLine line s) = currentLine s
     \<and> scrollTop (gotoLine line s) = scrollTop s
     \<and> scrollerTimer (gotoLine line s) = scrollerTimer s
     \<and> scrollerInterval (gotoLine line s) = scrollerInterval s
     \<and> intervals (gotoLine line s) = intervals s"
proof -
  from assms(2) have o: "\<not> (0 \<le> line \<and> line < int (length (lineElements s)))" by auto
  note r = gotoLine_result [OF assms(1), of line]
  from r o have e: "gotoLine line s = s\<lparr>nodes := nodes (gotoLine line s)\<rparr>" by blast
  have "\<not> active (gotoLine line s) j" if "j < length (lineElements s)" for j
    using r that assms(2) by auto
  moreover have "currentLine (gotoLine line s) = currentLine s"
    "scrollTop (gotoLine line s) = scrollTop s"
    "scrollerTimer (gotoLine line s) = scrollerTimer s"
    "scrollerInterval (gotoLine line s) = scrollerInterval s"
    "intervals (gotoLine line s) = intervals s"
    by (subst e, simp)+
  ultimately show ?thesis using e by blast
qed

theorem gotoLine_out_of_range_witness:
  "wf scenario_1
   \<and> \<not> active (gotoLine 2 scenario_1) 0 \<and> \<not> active (gotoLine 2 scenario_1) (Suc 0)
   \<and> currentLine (gotoLine 2 scenario_1) = -1
   \<and> intervals (gotoLine 2 scenario_1) = []"
proof -
  have h: "wf scenario_1" "(2::int) < 0 \<or> int (length (lineElements scenario_1)) \<le> 2"
    by code_simp+
  have l: "0 < length (lineElements scenario_1)" "Suc 0 < length (lineElements scenario_1)"
    "currentLine scenario_1 = -1" "intervals scenario_1 = []"
    by code_simp+
  from gotoLine_out_of_range [OF h] l show ?thesis
    using h(1) by simp
qed

subsection \<open>The sweep over the first scenario\<close>

lemma scenario_1_lines_init: "scenario_1_lines scenario_1"
  by code_simp

lemma timeupdate_scenario_1:
  assumes "scenario_1_lines s"
  shows "\<exists>s'. timeupdate t s = Some s' \<and> scenario_1_lines s'
     \<and> active s' 0 = (1 \<le> t \<and> t \<le> 7 / 2) \<and> \<not> active s' 1"
proof -
  let ?s = "s\<lparr>mediaElement := Some t\<rparr>"
  have w: "wf ?s" and m: "mediaElement ?s = Some t"
    using assms by (simp_all add: scenario_1_lines_def wf_def)
  from synchronizer_result [OF w m] obtain s' where
    s: "synchronizer ?s = Some s'" and l: "lineElements s' = lineElements ?s"
    and c: "currentLine s' = currentLine ?s" and n: "length (nodes s') = length (nodes ?s)"
    and d: "\<And>i. line_start s' i = line_start ?s i \<and> line_end s' i = line_end ?s i"
    and f: "\<And>i. i < length (lineElements ?s) \<Longrightarrow> active s' i
           = (time_active t (nodes ?s ! (lineElements ?s ! i))
              \<or> (currentLine ?s \<ge> 0 \<and> int i = currentLine ?s))"
    by blast
  have st: "line_start ?s = line_start s" "line_end ?s = line_end s"
    by (simp_all add: line_start_def line_end_def fun_eq_iff)
  have "scenario_1_lines s'"
    using assms by (simp add: scenario_1_lines_def l c n d st)
  moreover have a: "lineElements s = [0, Suc 0]" "currentLine s = -1"
    "data_start (nodes s ! 0) = Number 1" "data_end (nodes s ! 0) = Number (7 / 2)"
    "data_end (nodes s ! Suc 0) = Infinity"
    using assms by (auto simp: scenario_1_lines_def line_start_def line_end_def)
  moreover have "active s' 0 = (1 \<le> t \<and> t \<le> 7 / 2)"
    using f [of 0] by (simp add: a time_active_def js_ge_def js_le_def)
  moreover have "\<not> active s' 1"
    using f [of 1] by (simp add: a time_active_def js_ge_def js_le_def)
  ultimately show ?thesis
    using s by (simp add: timeupdate_def)
qed

lemma sweep_scenario_1_flags:
  assumes "scenario_1_lines s"
  shows "\<exists>states. sweep ts s = Some states
     \<and> map (\<lambda>s'. active s' 0) states = map (\<lambda>t. 1 \<le> t \<and> t \<le> 7 / 2) ts
     \<and> (\<forall>s'\<in>set states. \<not> active s' 1)"
  using assms
proof (induction ts arbitrary: s)
  case Nil
  then show ?case by simp
next
  case (Cons t ts)
  from timeupdate_scenario_1 [OF Cons.prems, of t] obtain s' where
    s': "timeupdate t s = Some s'" "scenario_1_lines s'"
    "active s' 0 = (1 \<le> t \<and> t \<le> 7 / 2)" "\<not> active s' 1"
    by blast
  from Cons.IH [OF s'(2)] obtain states where
    "sweep ts s' = Some states"
    "map (\<lambda>s'. active s' 0) states = map (\<lambda>t. 1 \<le> t \<and> t \<le> 7 / 2) ts"
    "\<forall>s'\<in>set states. \<not> active s' 1"
    by blast
  with s' show ?case by simp
qed

subsection \<open>A flag that follows a window, along a sorted list of positions\<close>

lemma window_after:
  assumes "sorted ts" "\<forall>t\<in>set ts. a \<le> (t::rat)"
  shows "rises (True # map (\<lambda>t. a \<le> t \<and> t \<le> b) ts) = 0
     \<and> falls (True # map (\<lambda>t. a \<le> t \<and> t \<le> b) ts) = (if \<exists>t\<in>set ts. b < t then 1 else 0)"
  using assms
proof (induction ts)
  case Nil
  then show ?case by simp
next
  case (Cons t ts)
  show ?case
  proof (cases "t \<le> b")
    case True
    with Cons show ?thesis by auto
  next
    case False
    with Cons.prems have "\<forall>u\<in>set ts. \<not> (a \<le> u \<and> u \<le> b)" by auto
    then have m: "map (\<lambda>t. a \<le> t \<and> t \<le> b) ts = map (\<lambda>t. False) ts"
      by simp
    have z: "rises (False # map (\<lambda>t. False) ts) = 0 \<and> falls (False # map (\<lambda>t. False) ts) = 0"
      by (induction ts) simp_all
    from False show ?thesis by (simp add: m z)
  qed
qed

lemma window_before:
  assumes "sorted ts" "a \<le> b"
  shows "rises (False # map (\<lambda>t. a \<le> t \<and> t \<le> b) ts) = (if \<exists>t\<in>set ts. a \<le> t \<and> t \<le> (b::rat) then 1 else 0)
     \<and> falls (False # map (\<lambda>t. a \<le> t \<and> t \<le> b) ts)
       = (if (\<exists>t\<in>set ts. a \<le> t \<and> t \<le> b) \<and> (\<exists>t\<in>set ts. b < t) then 1 else 0)"
  using assms(1)
proof (induction ts)
  case Nil
  then show ?case by simp
next
  case (Cons t ts)
  show ?case
  proof (cases "a \<le> t \<and> t \<le> b")
    case True
    with Cons.prems have "\<forall>u\<in>set ts. a \<le> u" by auto
    with Cons.prems window_after [of ts a b] True show ?thesis by auto
  next
    case False
    note nt = this
    show ?thesis
    proof (cases "b < t")
      case True
      with Cons.prems have "\<forall>u\<in>set ts. \<not> (a \<le> u \<and> u \<le> b)" by auto
      with Cons nt show ?thesis by auto
    next
      case False
      with Cons nt show ?thesis by auto
    qed
  qed
qed


text \<open>
  C4 as stated fails on the synchronizer of \<^verbatim>\<open>src/dist/rabbit-lyrics.js\<close>: the second line
  of the first scenario ends at Infinity, and the test \<^verbatim>\<open>element.dataset.end != Infinity\<close>
  keeps it inactive at 3.5 and at every other position of the sweep.
\<close>

theorem sweep_scenario_1_counterexample:
  "map_option (\<lambda>s. active s 1) (timeupdate (7 / 2) scenario_1) = Some False
   \<and> map_option (map (\<lambda>s. (active s 0, active s 1))) (sweep [1 / 2, 1, 2, 7 / 2, 4] scenario_1)
     = Some [(False, False), (True, False), (True, False), (True, False), (False, False)]"
  by code_simp

text \<open>
  C4, amended. The text of the first scenario parses to line 0 from 1 to 3.5 and line 1
  from 3.5 without end. Along every sorted list of positions from 0.5 to 4 with a position
  inside the window of line 0, with no explicit line, the flag of line 0 rises once and
  falls once, and line 1 is inactive after every update. Only the older synchronizer
  of \<^verbatim>\<open>src/unnamed/part_000\<close>, which does not test for Infinity, activates line 1 at 3.5.
\<close>

theorem sweep_scenario_1:
  assumes "sorted ts" "ts \<noteq> []" "hd ts = 1 / 2" "last ts = 4" "\<exists>t\<in>set ts. 1 \<le> t \<and> t \<le> 7 / 2"
  shows "parseLyrics (Some scenario_1_text) scenario_0 = Some scenario_1
     \<and> (\<exists>states. sweep ts scenario_1 = Some states
          \<and> rises (active scenario_1 0 # map (\<lambda>s. active s 0) states) = 1
          \<and> falls (active scenario_1 0 # map (\<lambda>s. active s 0) states) = 1
          \<and> (\<forall>s\<in>set states. \<not> active s 1))
     \<and> map_option (\<lambda>s. active s 1) (timeupdate_part_000 (7 / 2) scenario_1) = Some True"
proof -
  from sweep_scenario_1_flags [OF scenario_1_lines_init, of ts] obtain states where
    s: "sweep ts scenario_1 = Some states"
    and f: "map (\<lambda>s'. active s' 0) states = map (\<lambda>t. 1 \<le> t \<and> t \<le> 7 / 2) ts"
    and g: "\<forall>s'\<in>set states. \<not> active s' 1"
    by blast
  have i: "active scenario_1 0 = False"
    by code_simp
  have "last ts \<in> set ts"
    using assms(2) by (rule last_in_set)
  with assms(4) have "\<exists>t\<in>set ts. 7 / 2 < t"
    by (intro bexI [of _ "last ts"]) simp_all
  with window_before [OF assms(1), of 1 "7 / 2"] assms(5)
  have "rises (False # map (\<lambda>t. 1 \<le> t \<and> t \<le> 7 / 2) ts) = 1"
    "falls (False # map (\<lambda>t. 1 \<le> t \<and> t \<le> 7 / 2) ts) = 1"
    by simp_all
  then have "rises (active scenario_1 0 # map (\<lambda>s. active s 0) states) = 1"
    "falls (active scenario_1 0 # map (\<lambda>s. active s 0) states) = 1"
    by (simp_all only: i f)
  moreover have "map_option (\<lambda>s. active s 1) (timeupdate_part_000 (7 / 2) scenario_1) = Some True"
    by code_simp
  ultimately show ?thesis
    using s g scenario_1_parsed by blast
qed

theorem sweep_scenario_1_witness:
  "sorted [1 / 2, 1, 2, 7 / 2, 4 :: rat]
   \<and> (\<exists>states. sweep [1 / 2, 1, 2, 7 / 2, 4] scenario_1 = Some states
        \<and> rises (active scenario_1 0 # map (\<lambda>s. active s 0) states) = 1
        \<and> falls (active scenario_1 0 # map (\<lambda>s. active s 0) states) = 1)"
proof -
  have h: "sorted [1 / 2, 1, 2, 7 / 2, 4 :: rat]" "[1 / 2, 1, 2, 7 / 2, 4 :: rat] \<noteq> []"
    "hd [1 / 2, 1, 2, 7 / 2, 4 :: rat] = 1 / 2" "last [1 / 2, 1, 2, 7 / 2, 4 :: rat] = 4"
    "\<exists>t\<in>set [1 / 2, 1, 2, 7 / 2, 4 :: rat]. 1 \<le> t \<and> t \<le> 7 / 2"
    by simp_all
  from sweep_scenario_1 [OF h] show ?thesis
    using h(1) by blast
qed


section \<open>The scroll animation\<close>

lemma scroller_ticks:
  assumes "scrollTop s = 100" "element_scrollTop s = 0" "scrollerTimer s = 200"
    "scrollerIntervalStep s = 10" "k \<le> 20"
  shows "(scroller ^^ k) s = s\<lparr>element_scrollTop := 5 * of_nat k, scrollerTimer := 200 - 10 * of_nat k\<rparr>"
  using assms(5)
proof (induction k)
  case 0
  then show ?case using assms(2,3) by simp
next
  case (Suc k)
  then have k: "k < 20" and ih: "(scroller ^^ k) s = s\<lparr>element_scrollTop := 5 * of_nat k, scrollerTimer := 200 - 10 * of_nat k\<rparr>"
    by simp_all
  have pos: "(200::rat) - 10 * of_nat k > 0"
    using k by simp
  have m: "(100 - 5 * of_nat k) * 10 / (200 - 10 * of_nat k) = (5::rat)"
    using pos by (simp add: field_simps)
  have "(scroller ^^ Suc k) s = scroller ((scroller ^^ k) s)"
    by simp
  also have "\<dots> = scroller (s\<lparr>element_scrollTop := 5 * of_nat k, scrollerTimer := 200 - 10 * of_nat k\<rparr>)"
    by (simp only: ih)
  also have "\<dots> = s\<lparr>element_scrollTop := 5 * of_nat k + (100 - 5 * of_nat k) * 10 / (200 - 10 * of_nat k),
                       scrollerTimer := 200 - 10 * of_nat k - 10\<rparr>"
    using pos by (simp add: scroller_def Let_def assms(1,4))
  also have "\<dots> = s\<lparr>element_scrollTop := 5 * of_nat (Suc k), scrollerTimer := 200 - 10 * of_nat (Suc k)\<rparr>"
    unfolding m by (simp add: algebra_simps)
  finally show ?case .
qed

text \<open>
  C6. The animation armed with target 100 from offset 0, with 200 ms in steps of 10 ms:
  each of the first 20 ticks moves the offset and leaves the interval alive, after them
  the timer is 0 and the offset is exactly 100, and the tick that follows clears the
  interval and moves nothing.
\<close>

theorem scroller_converges:
  assumes "scrollTop s = 100" "element_scrollTop s = 0" "scrollerTimer s = 200"
    "scrollerIntervalStep s = 10" "scrollerInterval s = Some h" "h \<in> set (intervals s)"
  shows "scrollerTimer ((scroller ^^ 20) s) = 0
     \<and> element_scrollTop ((scroller ^^ 20) s) = 100
     \<and> (\<forall>k\<le>20. intervals ((scroller ^^ k) s) = intervals s)
     \<and> (\<forall>k<20. scrollerTimer ((scroller ^^ k) s) > 0)
     \<and> h \<notin> set (intervals ((scroller ^^ 21) s))
     \<and> element_scrollTop ((scroller ^^ 21) s) = 100"
proof -
  note t = scroller_ticks [OF assms(1-4)]
  have "(scroller ^^ 21) s = scroller ((scroller ^^ 20) s)"
    by (simp add: numeral_eq_Suc)
  also have "\<dots> = scroller (s\<lparr>element_scrollTop := 100, scrollerTimer := 0\<rparr>)"
    using t [of 20] by simp
  also have "\<dots> = s\<lparr>element_scrollTop := 100, scrollerTimer := 0, intervals := removeAll h (intervals s)\<rparr>"
    by (simp add: scroller_def clearInterval_def assms(5))
  finally have "(scroller ^^ 21) s
      = s\<lparr>element_scrollTop := 100, scrollerTimer := 0, intervals := removeAll h (intervals s)\<rparr>" .
  then show ?thesis
    by (simp add: t)
qed


theorem scroller_converges_witness:
  "scrollerTimer ((scroller ^^ 20) scenario_6) = 0
   \<and> element_scrollTop ((scroller ^^ 20) scenario_6) = 100
   \<and> intervals ((scroller ^^ 20) scenario_6) = [1]
   \<and> 1 \<notin> set (intervals ((scroller ^^ 21) scenario_6))"
proof -
  have h: "scrollTop scenario_6 = 100" "element_scrollTop scenario_6 = 0"
    "scrollerTimer scenario_6 = 200" "scrollerIntervalStep scenario_6 = 10"
    "scrollerInterval scenario_6 = Some 1" "1 \<in> set (intervals scenario_6)"
    by code_simp+
  have i: "intervals scenario_6 = [1]"
    by code_simp
  from scroller_converges [OF h] show ?thesis
    by (simp add: i)
qed


section \<open>The parser\<close>

subsection \<open>Time stamps found in a line\<close>

lemma match_here_decode:
  assumes "match_here s = Some ((w, g1, g2), rest)"
  shows "decodeTimeStamp w = Some (stamp_value w)" "0 \<le> stamp_value w"
proof -
  from match_here_Some [OF assms] obtain m a b where
    h: "m \<noteq> []" "a \<noteq> []" "b \<noteq> []" "\<forall>c\<in>set m. is_digit c" "\<forall>c\<in>set a. is_digit c"
    "\<forall>c\<in>set b. is_digit c"
    and w: "w = CHR ''['' # m @ CHR '':'' # a @ CHR ''.'' # b @ [CHR '']'']"
    by blast
  have "regex_exec w = Some (w, m, a @ CHR ''.'' # b)"
    unfolding w using match_here_token [OF h, of "[]"] by simp
  then have d: "decodeTimeStamp w = Some (of_nat (parseInt m) * 60 + parseFloat (a @ CHR ''.'' # b))"
    by (simp add: decodeTimeStamp_def)
  then show "decodeTimeStamp w = Some (stamp_value w)"
    by (simp add: stamp_value_def)
  have "0 \<le> parseFloat (a @ CHR ''.'' # b)"
    by (simp add: parseFloat_decimal h)
  then show "0 \<le> stamp_value w"
    using d by (simp add: stamp_value_def)
qed

lemma match_all_Nil [simp]: "match_all [] = []"
  by (simp add: match_all.simps [of "[]"] match_here_def)

lemma match_all_Some: "match_here s = Some ((w, g1, g2), rest) \<Longrightarrow> match_all s = w # match_all rest"
  by (simp add: match_all.simps [of s])

lemma match_all_None: "match_here (c # cs) = None \<Longrightarrow> match_all (c # cs) = match_all cs"
  by (simp add: match_all.simps [of "c # cs"])

lemma match_all_decode:
  "w \<in> set (match_all s) \<Longrightarrow> decodeTimeStamp w = Some (stamp_value w) \<and> 0 \<le> stamp_value w"
proof (induction s rule: match_all.induct)
  case (1 s)
  show ?case
  proof (cases "match_here s")
    case None
    show ?thesis
    proof (cases s)
      case Nil
      with 1(3) show ?thesis by simp
    next
      case (Cons c cs)
      with None 1(3) have "w \<in> set (match_all cs)"
        by (simp add: match_all_None)
      with 1(1) [OF None Cons] show ?thesis by simp
    qed
  next
    case (Some x)
    then obtain w' g1 g2 rest where x: "match_here s = Some ((w', g1, g2), rest)"
      by (cases x) auto
    from 1(3) have "w = w' \<or> w \<in> set (match_all rest)"
      by (simp add: match_all_Some [OF x])
    then show ?thesis
    proof
      assume "w = w'"
      with match_here_decode [OF x] show ?thesis by simp
    next
      assume "w \<in> set (match_all rest)"
      with 1(2) [OF x refl refl refl] show ?thesis by simp
    qed
  qed
qed

lemma match_beginning_cases:
  "match_beginning s = [] \<or> (\<exists>w ws. match_all s = w # ws \<and> match_beginning s = [w])"
proof (cases "match_here s")
  case None
  then show ?thesis by (simp add: match_beginning_def)
next
  case (Some x)
  then obtain w g1 g2 rest where x: "match_here s = Some ((w, g1, g2), rest)"
    by (cases x) auto
  then show ?thesis
    by (simp add: match_beginning_def match_all_Some [OF x])
qed

lemma match_ending_None: "match_all s = [] \<Longrightarrow> match_ending s = []"
proof (induction s)
  case Nil
  then show ?case by simp
next
  case (Cons c cs)
  show ?case
  proof (cases "match_here (c # cs)")
    case None
    with Cons show ?thesis by (simp add: match_all_None)
  next
    case (Some x)
    then obtain w g1 g2 rest where x: "match_here (c # cs) = Some ((w, g1, g2), rest)"
      by (cases x) auto
    with Cons.prems show ?thesis by (simp add: match_all_Some [OF x])
  qed
qed

lemma match_here_no_bracket: "c \<noteq> CHR ''['' \<Longrightarrow> match_here (c # r) = None"
  by (simp add: match_here_def)

lemma match_ending_skip: "CHR ''['' \<notin> set u \<Longrightarrow> r \<noteq> [] \<Longrightarrow> match_ending (u @ r) = match_ending r"
  by (induction u) (auto simp: match_here_no_bracket)

lemma is_digit_bracket [simp]: "is_digit c \<Longrightarrow> c \<noteq> CHR ''[''"
  by (auto simp: is_digit_def)

lemma match_ending_cases:
  "match_ending s = [] \<or> (match_all s \<noteq> [] \<and> match_ending s = [last (match_all s)])"
proof (induction s rule: match_all.induct)
  case (1 s)
  show ?case
  proof (cases "match_here s")
    case None
    show ?thesis
    proof (cases s)
      case Nil
      then show ?thesis by simp
    next
      case (Cons c cs)
      with None 1(1) [OF None Cons] show ?thesis
        by (simp add: match_all_None)
    qed
  next
    case (Some x)
    then obtain w g1 g2 rest where x: "match_here s = Some ((w, g1, g2), rest)"
      by (cases x) auto
    note ih = 1(2) [OF x refl refl refl]
    from match_here_Some [OF x] obtain m a b where
      h: "\<forall>c\<in>set m. is_digit c" "\<forall>c\<in>set a. is_digit c" "\<forall>c\<in>set b. is_digit c"
      and w: "w = CHR ''['' # m @ CHR '':'' # a @ CHR ''.'' # b @ [CHR '']'']" and s: "s = w @ rest"
      by blast
    let ?u = "m @ CHR '':'' # a @ CHR ''.'' # b @ [CHR '']'']"
    have sc: "s = CHR ''['' # ?u @ rest"
      using s w by simp
    have al: "match_all s = w # match_all rest"
      by (rule match_all_Some [OF x])
    show ?thesis
    proof (cases rest)
      case Nil
      have "match_ending (CHR ''['' # ?u @ rest) = [w]"
        using x Nil unfolding sc by simp
      then show ?thesis
        unfolding al using Nil sc by simp
    next
      case (Cons c cs)
      have nb: "CHR ''['' \<notin> set ?u"
        using h by auto
      have "match_ending (CHR ''['' # ?u @ rest) = match_ending (?u @ rest)"
        using x Cons unfolding sc by simp
      also have "\<dots> = match_ending rest"
        using match_ending_skip [OF nb, of rest] Cons by simp
      finally have e: "match_ending s = match_ending rest"
        using sc by simp
      from ih show ?thesis
        unfolding e al by auto
    qed
  qed
qed



subsection \<open>One turn of the loop\<close>

lemma close_lines_eq: "decodeTimeStamp ts = Some v \<Longrightarrow> close_lines ts wo ns = Some (close_all v wo ns)"
  by (induction wo arbitrary: ns) simp_all

lemma length_close_all [simp]: "length (close_all v wo ns) = length ns"
  by (induction wo arbitrary: ns) simp_all

lemma close_all_start [simp]: "data_start (close_all v wo ns ! r) = data_start (ns ! r)"
proof (induction wo arbitrary: ns)
  case Nil
  then show ?case by simp
next
  case (Cons x wo)
  have "data_start (ns[x := (ns ! x)\<lparr>data_end := Number v\<rparr>] ! r) = data_start (ns ! r)"
    by (cases "x < length ns"; cases "r = x"; simp add: not_less list_update_beyond)
  with Cons show ?case by simp
qed

lemma close_all_end:
  "\<forall>x\<in>set wo. x < length ns \<Longrightarrow>
   data_end (close_all v wo ns ! r) = (if r \<in> set wo then Number v else data_end (ns ! r))"
proof (induction wo arbitrary: ns)
  case Nil
  then show ?case by simp
next
  case (Cons x wo)
  let ?ns = "ns[x := (ns ! x)\<lparr>data_end := Number v\<rparr>]"
  from Cons.prems have x: "x < length ns" and w: "\<forall>y\<in>set wo. y < length ?ns"
    by simp_all
  have "data_end (?ns ! r) = (if r = x then Number v else data_end (ns ! r))"
    using x by (simp add: nth_list_update)
  with Cons.IH [OF w] show ?case by auto
qed

lemma match_all_decode_hd:
  "match_all line = t # ts \<Longrightarrow> decodeTimeStamp t = Some (stamp_value t)"
  using match_all_decode [of t line] by simp

lemma match_beginning_decode:
  "match_beginning line = b # bs \<Longrightarrow> decodeTimeStamp b = Some (stamp_value b)"
  using match_beginning_cases [of line] match_all_decode [of b line] by auto

lemma match_ending_decode:
  "match_ending line = e # es \<Longrightarrow> decodeTimeStamp e = Some (stamp_value e)"
  using match_ending_cases [of line] match_all_decode [of e line] by auto

lemma parse_line_step:
  assumes "\<forall>r\<in>set wo. r < length (nodes s)"
  shows "\<exists>s'. parse_line raw (s, lt, wo)
        = Some (s', next_lastTime lt (trim raw),
                (if match_all (trim raw) = [] then wo else [])
                @ (if match_ending (trim raw) = [] then [length (nodes s)] else []))
     \<and> length (nodes s') = Suc (length (nodes s))
     \<and> lineElements s' = lineElements s @ [length (nodes s)]
     \<and> (\<forall>r<length (nodes s).
           data_start (nodes s' ! r) = data_start (nodes s ! r)
           \<and> data_end (nodes s' ! r)
               = (if match_all (trim raw) \<noteq> [] \<and> r \<in> set wo
                  then Number (stamp_value (hd (match_all (trim raw))))
                  else data_end (nodes s ! r)))
     \<and> data_start (nodes s' ! length (nodes s)) = Number (line_start_value lt (trim raw))
     \<and> data_end (nodes s' ! length (nodes s)) = line_end_value (trim raw)"
proof -
  let ?line = "trim raw"
  let ?n = "length (nodes s)"
  let ?ns1 = "nodes s @ [createElement_div\<lparr>classList := [''line'']\<rparr>]"
  define ns2 where "ns2 = (if match_all ?line = [] then ?ns1
     else close_all (stamp_value (hd (match_all ?line))) wo ?ns1)"
  define wo2 where "wo2 = (if match_all ?line = [] then wo else [])"
  define ns3 where "ns3 = ns2[?n := (ns2 ! ?n)\<lparr>data_start := Number (line_start_value lt ?line)\<rparr>]"
  define ns4 where "ns4 = ns3[?n := (ns3 ! ?n)\<lparr>data_end := line_end_value ?line\<rparr>]"
  define wo4 where "wo4 = wo2 @ (if match_ending ?line = [] then [?n] else [])"
  have b1: "(case match_all ?line of
               ts0 # x \<Rightarrow>
                 if wo \<noteq> [] then do { ns \<leftarrow> close_lines ts0 wo ?ns1; Some (ns, []) }
                 else Some (?ns1, wo)
             | [] \<Rightarrow> Some (?ns1, wo)) = Some (ns2, wo2)"
  proof (cases "match_all ?line")
    case Nil
    then show ?thesis by (simp add: ns2_def wo2_def)
  next
    case (Cons t ts)
    from match_all_decode_hd [OF Cons] show ?thesis
      by (cases wo) (simp_all add: Cons ns2_def wo2_def close_lines_eq)
  qed
  have b2: "(case match_beginning ?line of
               b0 # x \<Rightarrow>
                 do { v \<leftarrow> decodeTimeStamp b0;
                      v' \<leftarrow> decodeTimeStamp b0;
                      Some (ns2[?n := (ns2 ! ?n)\<lparr>data_start := Number v\<rparr>], v') }
             | [] \<Rightarrow>
                 Some (ns2[?n := (ns2 ! ?n)\<lparr>data_start := Number lt\<rparr>], lt))
            = Some (ns3, line_start_value lt ?line)"
  proof (cases "match_beginning ?line")
    case Nil
    then show ?thesis by (simp add: ns3_def line_start_value_def)
  next
    case (Cons b bs)
    from match_beginning_decode [OF Cons] show ?thesis
      by (simp add: Cons ns3_def line_start_value_def)
  qed
  have b3: "(case match_ending ?line of
               e0 # x \<Rightarrow>
                 do { v \<leftarrow> decodeTimeStamp e0;
                      v' \<leftarrow> decodeTimeStamp e0;
                      Some (ns3[?n := (ns3 ! ?n)\<lparr>data_end := Number v\<rparr>], v', wo2) }
             | [] \<Rightarrow>
                 Some (ns3[?n := (ns3 ! ?n)\<lparr>data_end := Infinity\<rparr>], line_start_value lt ?line,
                       wo2 @ [?n]))
            = Some (ns4, next_lastTime lt ?line, wo4)"
  proof (cases "match_ending ?line")
    case Nil
    then show ?thesis by (simp add: ns4_def wo4_def line_end_value_def next_lastTime_def)
  next
    case (Cons e es)
    from match_ending_decode [OF Cons] show ?thesis
      by (simp add: Cons ns4_def wo4_def line_end_value_def next_lastTime_def)
  qed
  define html where "html = (if remove_time_stamps ?line = [] then ''&nbsp;'' else remove_time_stamps ?line)"
  define s' where "s' = s\<lparr>nodes := ns4[?n := (ns4 ! ?n)\<lparr>innerHTML := html\<rparr>],
                      children := children s @ [?n],
                      lineElements := lineElements s @ [?n]\<rparr>"
  have p: "parse_line raw (s, lt, wo) = Some (s', next_lastTime lt ?line, wo4)"
    unfolding parse_line_def by (simp add: Let_def b1 b2 b3 s'_def html_def)
  have w: "\<forall>x\<in>set wo. x < length ?ns1"
    using assms by auto
  have l2: "length ns2 = Suc ?n"
    by (simp add: ns2_def)
  have old2: "data_start (ns2 ! r) = data_start (nodes s ! r)
      \<and> data_end (ns2 ! r) = (if match_all ?line \<noteq> [] \<and> r \<in> set wo
                  then Number (stamp_value (hd (match_all ?line)))
                  else data_end (nodes s ! r))" if "r < ?n" for r
    using that by (simp add: ns2_def close_all_end [OF w] nth_append)
  have old: "data_start (nodes s' ! r) = data_start (ns2 ! r) \<and> data_end (nodes s' ! r) = data_end (ns2 ! r)"
    if "r < ?n" for r
    using that by (simp add: s'_def ns4_def ns3_def)
  have new: "data_start (nodes s' ! ?n) = Number (line_start_value lt ?line)"
    "data_end (nodes s' ! ?n) = line_end_value ?line"
    by (simp_all add: s'_def ns4_def ns3_def l2)
  have "length (nodes s') = Suc ?n" "lineElements s' = lineElements s @ [?n]"
    by (simp_all add: s'_def ns4_def ns3_def l2)
  with p old old2 new show ?thesis
    unfolding wo4_def wo2_def by auto
qed


subsection \<open>The whole loop, line by line\<close>

lemma still_without_bound: "r \<in> set (still_without n ls) \<Longrightarrow> n \<le> r \<and> r < n + length ls"
proof (induction ls arbitrary: n)
  case Nil
  then show ?case by simp
next
  case (Cons l ls)
  from Cons.prems have "r = n \<or> r \<in> set (still_without (Suc n) ls)"
    by (auto split: if_splits)
  then show ?case
  proof
    assume "r = n"
    then show ?thesis by simp
  next
    assume "r \<in> set (still_without (Suc n) ls)"
    from Cons.IH [OF this] show ?thesis by simp
  qed
qed

lemma length_line_ends [simp]: "length (line_ends ls) = length ls"
  by (induction ls) simp_all

lemma length_line_starts [simp]: "length (line_starts lt ls) = length ls"
  by (induction ls arbitrary: lt) simp_all

lemma parse_lines_spec:
  assumes "\<forall>r\<in>set wo. r < length (nodes s)"
  shows "\<exists>s' lt'. parse_lines ls (s, lt, wo)
        = Some (s', lt', (if first_stamp ls = None then wo else []) @ still_without (length (nodes s)) ls)
     \<and> length (nodes s') = length (nodes s) + length ls
     \<and> lineElements s' = lineElements s @ [length (nodes s)..<length (nodes s) + length ls]
     \<and> (\<forall>r<length (nodes s).
           data_start (nodes s' ! r) = data_start (nodes s ! r)
           \<and> data_end (nodes s' ! r)
               = (case first_stamp ls of
                    Some t \<Rightarrow> if r \<in> set wo then Number (stamp_value t) else data_end (nodes s ! r)
                  | None \<Rightarrow> data_end (nodes s ! r)))
     \<and> (\<forall>i<length ls.
           data_start (nodes s' ! (length (nodes s) + i)) = Number (line_starts lt ls ! i)
           \<and> data_end (nodes s' ! (length (nodes s) + i)) = line_ends ls ! i)"
  using assms
proof (induction ls arbitrary: s lt wo)
  case Nil
  then show ?case by simp
next
  case (Cons l ls)
  let ?n = "length (nodes s)"
  let ?line = "trim l"
  define wo1 where "wo1 = (if match_all ?line = [] then wo else [])
                @ (if match_ending ?line = [] then [?n] else [])"
  from parse_line_step [OF Cons.prems, of l lt] obtain s1 where
    p: "parse_line l (s, lt, wo) = Some (s1, next_lastTime lt ?line, wo1)"
    and n1: "length (nodes s1) = Suc ?n"
    and l1: "lineElements s1 = lineElements s @ [?n]"
    and old1: "\<And>r. r < ?n \<Longrightarrow> data_start (nodes s1 ! r) = data_start (nodes s ! r)
           \<and> data_end (nodes s1 ! r)
               = (if match_all ?line \<noteq> [] \<and> r \<in> set wo
                  then Number (stamp_value (hd (match_all ?line)))
                  else data_end (nodes s ! r))"
    and new1: "data_start (nodes s1 ! ?n) = Number (line_start_value lt ?line)"
      "data_end (nodes s1 ! ?n) = line_end_value ?line"
    unfolding wo1_def by blast
  have w1: "\<forall>r\<in>set wo1. r < length (nodes s1)"
    using Cons.prems by (auto simp: wo1_def n1)
  from Cons.IH [OF w1, of "next_lastTime lt ?line"] obtain s' lt' where
    q: "parse_lines ls (s1, next_lastTime lt ?line, wo1)
        = Some (s', lt', (if first_stamp ls = None then wo1 else []) @ still_without (Suc ?n) ls)"
    and n': "length (nodes s') = Suc ?n + length ls"
    and l': "lineElements s' = lineElements s1 @ [Suc ?n..<Suc ?n + length ls]"
    and old': "\<And>r. r < Suc ?n \<Longrightarrow> data_start (nodes s' ! r) = data_start (nodes s1 ! r)
           \<and> data_end (nodes s' ! r)
               = (case first_stamp ls of
                    Some t \<Rightarrow> if r \<in> set wo1 then Number (stamp_value t) else data_end (nodes s1 ! r)
                  | None \<Rightarrow> data_end (nodes s1 ! r))"
    and new': "\<And>i. i < length ls \<Longrightarrow>
           data_start (nodes s' ! (Suc ?n + i)) = Number (line_starts (next_lastTime lt ?line) ls ! i)
           \<and> data_end (nodes s' ! (Suc ?n + i)) = line_ends ls ! i"
    unfolding n1 by blast
  have r1: "parse_lines (l # ls) (s, lt, wo)
        = Some (s', lt', (if first_stamp (l # ls) = None then wo else [])
                 @ still_without ?n (l # ls))"
    using p q by (cases "match_all ?line") (auto simp: wo1_def match_ending_None)
  have r2: "length (nodes s') = ?n + length (l # ls)"
    using n' by simp
  have e: "?n + length (l # ls) = Suc ?n + length ls"
    by simp
  have c: "[?n..<Suc ?n + length ls] = ?n # [Suc ?n..<Suc ?n + length ls]"
    by (rule upt_conv_Cons) simp
  have r3: "lineElements s' = lineElements s @ [?n..<?n + length (l # ls)]"
    unfolding e c l' l1 by simp
  have r4: "data_start (nodes s' ! r) = data_start (nodes s ! r)
           \<and> data_end (nodes s' ! r)
               = (case first_stamp (l # ls) of
                    Some t \<Rightarrow> if r \<in> set wo then Number (stamp_value t) else data_end (nodes s ! r)
                  | None \<Rightarrow> data_end (nodes s ! r))" if "r < ?n" for r
  proof (cases "match_all ?line")
    case Nil
    then have "r \<in> set wo1 \<longleftrightarrow> r \<in> set wo"
      using that by (auto simp: wo1_def)
    with Nil old' [of r] old1 [OF that] that show ?thesis
      by (auto split: option.splits)
  next
    case (Cons t ts)
    then have "r \<notin> set wo1"
      using that by (auto simp: wo1_def)
    with Cons old' [of r] old1 [OF that] that show ?thesis
      by (auto split: option.splits)
  qed
  have r5: "data_start (nodes s' ! (?n + i)) = Number (line_starts lt (l # ls) ! i)
           \<and> data_end (nodes s' ! (?n + i)) = line_ends (l # ls) ! i" if "i < length (l # ls)" for i
  proof (cases i)
    case 0
    have "?n \<in> set wo1 \<longleftrightarrow> match_ending ?line = []"
      using Cons.prems by (auto simp: wo1_def)
    with old' [of ?n] new1 0 show ?thesis
      by (auto simp: line_end_value_def split: option.splits list.splits)
  next
    case (Suc j)
    with that new' [of j] show ?thesis by simp
  qed
  show ?case
    using r1 r2 r3 r4 r5 by blast
qed



subsection \<open>parseLyrics as a whole\<close>

lemma length_split_nl: "length (split_nl s) = Suc (length (filter (\<lambda>c. c = CHR 0x0A) s))"
proof (induction s)
  case Nil
  then show ?case by simp
next
  case (Cons c cs)
  then show ?case by (cases "split_nl cs") auto
qed

lemma indexOf_ge: "- 1 \<le> indexOf s p"
  by (induction s) (auto simp: Let_def)

lemma indexOf_found: "(0 \<le> indexOf s p) = (\<exists>u v. s = u @ p @ v)"
proof (induction s)
  case Nil
  then show ?case by auto
next
  case (Cons c cs)
  show ?case
  proof (cases "take (length p) (c # cs) = p")
    case True
    then have "c # cs = [] @ p @ drop (length p) (c # cs)"
      by (metis append_Nil append_take_drop_id)
    then have "\<exists>u v. c # cs = u @ p @ v" by blast
    with True show ?thesis by simp
  next
    case False
    have "(\<exists>u v. c # cs = u @ p @ v) = (\<exists>u v. cs = u @ p @ v)"
    proof
      assume "\<exists>u v. c # cs = u @ p @ v"
      then obtain u v where e: "c # cs = u @ p @ v" by blast
      show "\<exists>u v. cs = u @ p @ v"
      proof (cases u)
        case Nil
        with e have "take (length p) (c # cs) = p" by simp
        with False show ?thesis by simp
      next
        case (Cons x u')
        with e show ?thesis by auto
      qed
    next
      assume "\<exists>u v. cs = u @ p @ v"
      then obtain u v where "cs = u @ p @ v" by blast
      then have "c # cs = (c # u) @ p @ v" by simp
      then show "\<exists>u v. c # cs = u @ p @ v" by blast
    qed
    with False Cons show ?thesis
      by (auto simp: Let_def)
  qed
qed

lemma parseLyrics_lines:
  assumes "\<not> (length (split_nl (trim (element_textContent c))) \<le> 1
              \<and> 0 \<le> indexOf (element_innerHTML c) ''<div'')"
  shows "\<exists>s'. parseLyrics (Some c) s = Some s'
     \<and> length (lineElements s') = length (lineElements s) + length (split_nl (trim (element_textContent c)))
     \<and> (\<forall>i<length (split_nl (trim (element_textContent c))).
           line_start s' (length (lineElements s) + i)
             = Number (line_starts 0 (split_nl (trim (element_textContent c))) ! i)
           \<and> line_end s' (length (lineElements s) + i)
             = line_ends (split_nl (trim (element_textContent c))) ! i)"
proof -
  let ?ls = "split_nl (trim (element_textContent c))"
  let ?s0 = "s\<lparr>children := []\<rparr>"
  let ?n = "length (nodes s)"
  have "\<forall>r\<in>set []. r < length (nodes ?s0)" by simp
  from parse_lines_spec [OF this, of ?ls 0] obtain s' lt' wo' where
    p: "parse_lines ?ls (?s0, 0, []) = Some (s', lt', wo')"
    and l: "lineElements s' = lineElements ?s0 @ [length (nodes ?s0)..<length (nodes ?s0) + length ?ls]"
    and old0: "\<forall>r<length (nodes ?s0).
           data_start (nodes s' ! r) = data_start (nodes ?s0 ! r)
           \<and> data_end (nodes s' ! r)
               = (case first_stamp ?ls of
                    Some t \<Rightarrow> if r \<in> set [] then Number (stamp_value t) else data_end (nodes ?s0 ! r)
                  | None \<Rightarrow> data_end (nodes ?s0 ! r))"
    and new0: "\<forall>i<length ?ls.
           data_start (nodes s' ! (length (nodes ?s0) + i)) = Number (line_starts 0 ?ls ! i)
           \<and> data_end (nodes s' ! (length (nodes ?s0) + i)) = line_ends ?ls ! i"
    by blast
  have old: "data_start (nodes s' ! r) = data_start (nodes s ! r)
           \<and> data_end (nodes s' ! r) = data_end (nodes s ! r)" if "r < ?n" for r
    using old0 that by (cases "first_stamp ?ls") auto
  have new: "data_start (nodes s' ! (?n + i)) = Number (line_starts 0 ?ls ! i)
           \<and> data_end (nodes s' ! (?n + i)) = line_ends ?ls ! i" if "i < length ?ls" for i
    using new0 that by simp
  have r: "parseLyrics (Some c) s = Some s'"
    using assms(1) p by (auto simp: parseLyrics_def Let_def)
  have b: "line_start s' (length (lineElements s) + i) = Number (line_starts 0 ?ls ! i)
           \<and> line_end s' (length (lineElements s) + i) = line_ends ?ls ! i"
    if "i < length ?ls" for i
    using that new [of i] by (simp add: line_start_def line_end_def l nth_append)
  show ?thesis
    using r b by (simp add: l)
qed


text \<open>
  C8. When the trimmed text of the container has no line feed and the markup of the
  container already contains \<^verbatim>\<open><div\<close>, \<^verbatim>\<open>parseLyrics\<close> returns the object as it is: no
  node is created, and the lines and their records are unchanged.
\<close>

theorem parseLyrics_reparse:
  assumes "CHR 0x0A \<notin> set (trim (element_textContent c))"
    and "\<exists>u v. element_innerHTML c = u @ ''<div'' @ v"
  shows "parseLyrics (Some c) s = Some s"
proof -
  have "filter (\<lambda>x. x = CHR 0x0A) (trim (element_textContent c)) = []"
    using assms(1) by (auto simp: filter_empty_conv)
  then have "length (split_nl (trim (element_textContent c))) \<le> 1"
    by (simp add: length_split_nl)
  moreover have "0 \<le> indexOf (element_innerHTML c) ''<div''"
    using assms(2) by (simp only: indexOf_found)
  ultimately show ?thesis
    by (simp add: parseLyrics_def)
qed

theorem parseLyrics_reparse_witness:
  "CHR 0x0A \<notin> set (trim (element_textContent scenario_1_rendered))
   \<and> parseLyrics (Some scenario_1_rendered) scenario_1 = Some scenario_1"
proof -
  have a: "CHR 0x0A \<notin> set (trim (element_textContent scenario_1_rendered))"
    by code_simp
  have "0 \<le> indexOf (element_innerHTML scenario_1_rendered) ''<div''"
    by code_simp
  then have b: "\<exists>u v. element_innerHTML scenario_1_rendered = u @ ''<div'' @ v"
    by (simp only: indexOf_found)
  from parseLyrics_reparse [OF a b] a show ?thesis
    by simp
qed

text \<open>
  C9 as stated fails: \<^verbatim>\<open>''.split('\n')\<close> is \<^verbatim>\<open>['']\<close>, so the loop runs once and an empty
  text gives one line, with the placeholder as its text.
\<close>

theorem parseLyrics_empty_counterexample:
  "map_option (\<lambda>s. (lineElements s, nodes s))
     (parseLyrics (Some \<lparr>element_textContent = [], element_innerHTML = []\<rparr>) scenario_0)
   = Some ([0], [\<lparr>classList = [''line''], data_start = Number 0, data_end = Infinity,
                   innerHTML = ''&nbsp;'', offsetTop = 0, offsetHeight = 0\<rparr>])"
  by code_simp

text \<open>
  C9, amended. For an empty text \<^verbatim>\<open>parseLyrics\<close> changes nothing only when the markup of
  the container contains \<^verbatim>\<open><div\<close>. Otherwise it empties the container and appends
  exactly one line: start 0, end Infinity, and the placeholder \<^verbatim>\<open>&nbsp;\<close> as text.
\<close>

theorem parseLyrics_empty:
  assumes "element_textContent c = []"
  shows "parseLyrics (Some c) s
       = Some (if 0 \<le> indexOf (element_innerHTML c) ''<div'' then s
               else s\<lparr>nodes := nodes s @ [\<lparr>classList = [''line''], data_start = Number 0,
                                              data_end = Infinity, innerHTML = ''&nbsp;'',
                                              offsetTop = 0, offsetHeight = 0\<rparr>],
                       children := [length (nodes s)],
                       lineElements := lineElements s @ [length (nodes s)]\<rparr>)"
proof -
  have t: "trim [] = []"
    by (simp add: trim_def)
  have m: "match_all [] = []" "match_beginning [] = []" "match_ending [] = []"
    "remove_time_stamps [] = []"
    by (simp_all add: match_beginning_def match_here_def remove_time_stamps.simps [of "[]"])
  have "parse_line [] (s\<lparr>children := []\<rparr>, 0, [])
      = Some (s\<lparr>nodes := nodes s @ [\<lparr>classList = [''line''], data_start = Number 0,
                                       data_end = Infinity, innerHTML = ''&nbsp;'',
                                       offsetTop = 0, offsetHeight = 0\<rparr>],
                children := [length (nodes s)],
                lineElements := lineElements s @ [length (nodes s)]\<rparr>, 0, [length (nodes s)])"
    by (simp add: parse_line_def t m createElement_div_def Let_def)
  then show ?thesis
    by (simp add: parseLyrics_def assms t)
qed

theorem parseLyrics_empty_witness:
  "parseLyrics (Some \<lparr>element_textContent = [], element_innerHTML = []\<rparr>) scenario_0
   = Some (scenario_0\<lparr>nodes := [\<lparr>classList = [''line''], data_start = Number 0,
                                     data_end = Infinity, innerHTML = ''&nbsp;'',
                                     offsetTop = 0, offsetHeight = 0\<rparr>],
                       children := [0], lineElements := [0]\<rparr>)
   \<and> parseLyrics (Some \<lparr>element_textContent = [], element_innerHTML = ''<div></div>''\<rparr>) scenario_0
     = Some scenario_0"
  using parseLyrics_empty [of "\<lparr>element_textContent = [], element_innerHTML = []\<rparr>" scenario_0]
    parseLyrics_empty [of "\<lparr>element_textContent = [], element_innerHTML = ''<div></div>''\<rparr>" scenario_0]
  by (simp add: scenario_0_def)



subsection \<open>Lines closed by a later time stamp\<close>

lemma line_ends_drop: "line_ends (pre @ xs) ! (length pre + j) = line_ends xs ! j"
  by (induction pre) simp_all

lemma first_stamp_skip:
  "\<forall>m\<in>set mid. match_all (trim m) = [] \<Longrightarrow> first_stamp (mid @ xs) = first_stamp xs"
  by (induction mid) simp_all

lemma first_stamp_last: "match_all (trim l) \<noteq> [] \<Longrightarrow> first_stamp (xs @ [l]) \<noteq> None"
  by (induction xs) (auto split: list.splits)

lemma still_without_last:
  "match_all (trim l) \<noteq> [] \<Longrightarrow>
   still_without n (xs @ [l]) = (if match_ending (trim l) = [] then [n + length xs] else [])"
  by (induction xs arbitrary: n) (simp_all add: first_stamp_last)

lemma line_ends_closed:
  assumes "match_ending (trim L0) = []" "\<forall>m\<in>set mid. match_all (trim m) = []"
    "match_all (trim Lk) = t # ts" "j \<le> length mid"
  shows "line_ends (L0 # mid @ Lk # post) ! j = Number (stamp_value t)"
proof (cases j)
  case 0
  have "first_stamp (mid @ Lk # post) = Some t"
    using assms(2,3) by (simp add: first_stamp_skip)
  with 0 assms(1) show ?thesis by simp
next
  case (Suc i)
  with assms(4) have i: "i < length mid" by simp
  let ?m1 = "take i mid" and ?m2 = "drop (Suc i) mid"
  have mid: "mid = ?m1 @ mid ! i # ?m2"
    using i by (rule id_take_nth_drop)
  have e: "match_ending (trim (mid ! i)) = []"
    using assms(2) i by (simp add: match_ending_None)
  have "\<forall>m\<in>set ?m2. match_all (trim m) = []"
    using assms(2) by (auto dest: in_set_dropD)
  then have f: "first_stamp (?m2 @ Lk # post) = Some t"
    using assms(3) by (simp add: first_stamp_skip)
  have "line_ends (mid @ Lk # post) ! i = line_ends (?m1 @ (mid ! i # ?m2 @ Lk # post)) ! (length ?m1 + 0)"
    using i mid by (metis add.right_neutral append.assoc append_Cons length_take min.absorb2 less_imp_le)
  also have "\<dots> = line_ends (mid ! i # ?m2 @ Lk # post) ! 0"
    by (rule line_ends_drop)
  also have "\<dots> = Number (stamp_value t)"
    using e f by simp
  finally show ?thesis
    using Suc by simp
qed


text \<open>
  C2. Let the lines of the text be \<open>pre\<close>, then \<open>L0\<close> without a time stamp at its end,
  then the lines \<open>mid\<close> without any time stamp, then \<open>Lk\<close>, the first line after \<open>L0\<close>
  with a time stamp, then \<open>post\<close>. When the loop has processed \<open>Lk\<close>, the end of \<open>L0\<close>
  and of every line of \<open>mid\<close> is the decoded value of the first time stamp of \<open>Lk\<close>, and
  no line but \<open>Lk\<close> itself is left in the list of lines without ending time; the ends
  stay so in the result of \<^verbatim>\<open>parseLyrics\<close>.
\<close>

theorem parseLyrics_closes_lines:
  assumes "split_nl (trim (element_textContent c)) = pre @ L0 # mid @ Lk # post"
    and "match_ending (trim L0) = []"
    and "\<forall>m\<in>set mid. match_all (trim m) = []"
    and "match_all (trim Lk) = t # ts"
  shows "\<exists>v s1 lt1 wo1 s'.
       decodeTimeStamp t = Some v
     \<and> parse_lines (pre @ L0 # mid @ [Lk]) (s\<lparr>children := []\<rparr>, 0, []) = Some (s1, lt1, wo1)
     \<and> (\<forall>j\<le>length mid. data_end (nodes s1 ! (length (nodes s) + length pre + j)) = Number v)
     \<and> set wo1 \<subseteq> {length (nodes s) + length pre + length mid + 1}
     \<and> parseLyrics (Some c) s = Some s'
     \<and> (\<forall>j\<le>length mid. line_end s' (length (lineElements s) + length pre + j) = Number v)"
proof -
  let ?ls = "split_nl (trim (element_textContent c))"
  let ?px = "pre @ L0 # mid @ [Lk]"
  let ?s0 = "s\<lparr>children := []\<rparr>"
  let ?n = "length (nodes s)"
  have d: "decodeTimeStamp t = Some (stamp_value t)"
    using assms(4) by (rule match_all_decode_hd)
  have e: "\<forall>r\<in>set []. r < length (nodes ?s0)" by simp
  from parse_lines_spec [OF e, of ?px 0] obtain s1 lt1 where
    p: "parse_lines ?px (?s0, 0, [])
        = Some (s1, lt1, (if first_stamp ?px = None then [] else []) @ still_without (length (nodes ?s0)) ?px)"
    and new1: "\<forall>i<length ?px.
           data_start (nodes s1 ! (length (nodes ?s0) + i)) = Number (line_starts 0 ?px ! i)
           \<and> data_end (nodes s1 ! (length (nodes ?s0) + i)) = line_ends ?px ! i"
    by blast
  have px: "?px = (pre @ L0 # mid) @ [Lk]" by simp
  have w: "still_without ?n ?px
      = (if match_ending (trim Lk) = [] then [?n + length (pre @ L0 # mid)] else [])"
    unfolding px using assms(4) by (intro still_without_last) simp
  have c1: "data_end (nodes s1 ! (?n + length pre + j)) = Number (stamp_value t)"
    if "j \<le> length mid" for j
  proof -
    have "length pre + j < length ?px" using that by simp
    with new1 have "data_end (nodes s1 ! (?n + (length pre + j))) = line_ends ?px ! (length pre + j)"
      by simp
    also have "\<dots> = line_ends (L0 # mid @ Lk # []) ! j"
      by (rule line_ends_drop)
    also have "\<dots> = Number (stamp_value t)"
      using assms(2,3,4) that by (rule line_ends_closed)
    finally show ?thesis by (simp add: add.assoc)
  qed
  have c2: "set (still_without ?n ?px) \<subseteq> {?n + length pre + length mid + 1}"
    unfolding w by auto
  have g: "\<not> (length ?ls \<le> 1 \<and> 0 \<le> indexOf (element_innerHTML c) ''<div'')"
    unfolding assms(1) by simp
  from parseLyrics_lines [OF g, of s] obtain s' where
    r: "parseLyrics (Some c) s = Some s'"
    and f: "\<forall>i<length ?ls. line_end s' (length (lineElements s) + i) = line_ends ?ls ! i"
    by blast
  have c3: "line_end s' (length (lineElements s) + length pre + j) = Number (stamp_value t)"
    if "j \<le> length mid" for j
  proof -
    have "length pre + j < length ?ls" using that unfolding assms(1) by simp
    with f have "line_end s' (length (lineElements s) + (length pre + j)) = line_ends ?ls ! (length pre + j)"
      by simp
    also have "\<dots> = line_ends (L0 # mid @ Lk # post) ! j"
      unfolding assms(1) by (rule line_ends_drop)
    also have "\<dots> = Number (stamp_value t)"
      using assms(2,3,4) that by (rule line_ends_closed)
    finally show ?thesis by (simp add: add.assoc)
  qed
  from p have p': "parse_lines ?px (?s0, 0, []) = Some (s1, lt1, still_without ?n ?px)"
    by simp
  show ?thesis
    using d p' c1 c2 r c3 by blast
qed

theorem parseLyrics_closes_lines_witness:
  "\<exists>s'. parseLyrics (Some scenario_2_text) scenario_0 = Some s'
     \<and> line_end s' 0 = Number 5 \<and> line_end s' (Suc 0) = Number 5"
proof -
  have h: "split_nl (trim (element_textContent scenario_2_text))
      = [] @ ''[0:01.00]One'' # [''Two''] @ ''Three[0:05.00]three'' # [''Four'']"
    "match_ending (trim ''[0:01.00]One'') = []"
    "\<forall>m\<in>set [''Two'']. match_all (trim m) = []"
    "match_all (trim ''Three[0:05.00]three'') = ''[0:05.00]'' # []"
    by code_simp+
  have v: "decodeTimeStamp ''[0:05.00]'' = Some 5"
    by code_simp
  have l: "length (lineElements scenario_0) = 0"
    by code_simp
  from parseLyrics_closes_lines [OF h, of scenario_0] obtain s' where
    "parseLyrics (Some scenario_2_text) scenario_0 = Some s'"
    "\<forall>j\<le>length [''Two'']. line_end s' (length (lineElements scenario_0) + length ([]::string list) + j) = Number 5"
    unfolding v by auto
  then have "parseLyrics (Some scenario_2_text) scenario_0 = Some s'"
    "line_end s' 0 = Number 5" "line_end s' (Suc 0) = Number 5"
    unfolding l by auto
  then show ?thesis by blast
qed


subsection \<open>Start and end of a line\<close>

lemma map_filter_decode: "List.map_filter decodeTimeStamp (match_all l) = map stamp_value (match_all l)"
proof -
  have "\<And>xs. (\<forall>w\<in>set xs. decodeTimeStamp w = Some (stamp_value w))
      \<Longrightarrow> List.map_filter decodeTimeStamp xs = map stamp_value xs"
  proof -
    fix xs :: "string list"
    show "(\<forall>w\<in>set xs. decodeTimeStamp w = Some (stamp_value w))
      \<Longrightarrow> List.map_filter decodeTimeStamp xs = map stamp_value xs"
      by (induction xs) (simp_all add: List.map_filter_simps)
  qed
  then show ?thesis
    using match_all_decode [of _ l] by blast
qed

lemma stamp_values_simps [simp]:
  "stamp_values [] = []"
  "stamp_values (l # ls) = map stamp_value (match_all (trim l)) @ stamp_values ls"
  by (simp_all add: stamp_values_def)

lemma time_stamp_values_eq: "time_stamp_values text = stamp_values (split_nl (trim text))"
  by (simp add: time_stamp_values_def stamp_values_def map_filter_decode)

lemma stamp_values_nonneg: "v \<in> set (stamp_values ls) \<Longrightarrow> 0 \<le> v"
  using match_all_decode by (auto simp: stamp_values_def)

lemma first_stamp_value: "first_stamp ls = Some t \<Longrightarrow> stamp_value t \<in> set (stamp_values ls)"
proof (induction ls)
  case Nil
  then show ?case by simp
next
  case (Cons l ls)
  show ?case
  proof (cases "match_all (trim l)")
    case Nil
    with Cons show ?thesis by simp
  next
    case (Cons w ws)
    with Cons.prems show ?thesis by simp
  qed
qed

lemma sorted_hd_le: "sorted xs \<Longrightarrow> x \<in> set xs \<Longrightarrow> hd xs \<le> (x::rat)"
  by (cases xs) auto

lemma line_start_value_cases:
  "line_start_value lt l = lt
   \<or> (match_all l \<noteq> [] \<and> line_start_value lt l = hd (map stamp_value (match_all l)))"
  using match_beginning_cases [of l] by (auto simp: line_start_value_def)

lemma match_ending_value:
  "match_ending l = e # es \<Longrightarrow>
   match_all l \<noteq> [] \<and> stamp_value e = last (map stamp_value (match_all l))"
  using match_ending_cases [of l] by (auto simp: last_map)

lemma starts_le_ends:
  assumes "sorted (stamp_values ls)" "\<forall>v\<in>set (stamp_values ls). lt \<le> v"
    "i < length ls" "line_ends ls ! i = Number e"
  shows "line_starts lt ls ! i \<le> e"
  using assms
proof (induction ls arbitrary: lt i)
  case Nil
  then show ?case by simp
next
  case (Cons l ls)
  let ?V = "map stamp_value (match_all (trim l))"
  let ?R = "stamp_values ls"
  let ?S = "line_start_value lt (trim l)"
  from Cons.prems(1) have sV: "sorted ?V" and sR: "sorted ?R"
    and VR: "\<And>x y. x \<in> set ?V \<Longrightarrow> y \<in> set ?R \<Longrightarrow> x \<le> y"
    by (auto simp: sorted_append)
  from Cons.prems(2) have ltV: "\<And>v. v \<in> set ?V \<Longrightarrow> lt \<le> v"
    and ltR: "\<And>v. v \<in> set ?R \<Longrightarrow> lt \<le> v"
    by auto
  have A: "?S \<le> v" if "v \<in> set ?V \<or> v \<in> set ?R" for v
  proof -
    from line_start_value_cases [of lt "trim l"] show ?thesis
    proof
      assume "?S = lt"
      with that ltV ltR show ?thesis by auto
    next
      assume h: "match_all (trim l) \<noteq> [] \<and> ?S = hd ?V"
      then have "?V \<noteq> []" by simp
      then have "hd ?V \<in> set ?V" by (rule hd_in_set)
      with that sorted_hd_le [OF sV] VR h show ?thesis by auto
    qed
  qed
  have B: "next_lastTime lt (trim l) \<le> v" if "v \<in> set ?R" for v
  proof (cases "match_ending (trim l)")
    case Nil
    with A that show ?thesis by (simp add: next_lastTime_def)
  next
    case (Cons w ws)
    from match_ending_value [OF Cons] have "stamp_value w \<in> set ?V"
      by (metis last_in_set map_is_Nil_conv)
    with VR that Cons show ?thesis by (simp add: next_lastTime_def)
  qed
  show ?case
  proof (cases i)
    case 0
    show ?thesis
    proof (cases "match_ending (trim l)")
      case Nil
      with 0 Cons.prems(4) obtain t where "first_stamp ls = Some t" "e = stamp_value t"
        by (auto split: option.splits)
      with first_stamp_value [of ls t] A 0 show ?thesis by simp
    next
      case (Cons w ws)
      from match_ending_value [OF Cons] have "stamp_value w \<in> set ?V"
        by (metis last_in_set map_is_Nil_conv)
      moreover from 0 Cons Cons.prems(4) have "e = stamp_value w" by simp
      ultimately show ?thesis using A 0 by simp
    qed
  next
    case (Suc j)
    with Cons.prems(3,4) have "j < length ls" "line_ends ls ! j = Number e" by simp_all
    from Cons.IH [OF sR _ this, of "next_lastTime lt (trim l)"] B Suc show ?thesis by simp
  qed
qed

text \<open>
  C7 as stated fails: nothing in the parser compares time stamps, and a line that begins
  with a later time stamp than it ends with starts after its end.
\<close>

theorem parseLyrics_start_le_end_counterexample:
  "map_option (\<lambda>s. (line_start s 0, line_end s 0))
     (parseLyrics (Some \<lparr>element_textContent = ''[0:05.00]Hello[0:03.00]'',
                         element_innerHTML = ''[0:05.00]Hello[0:03.00]''\<rparr>) scenario_0)
   = Some (Number 5, Number 3) \<and> \<not> (5::rat) \<le> 3"
  by code_simp

text \<open>
  C7, amended. When the time stamps of the text, in the order they appear, never
  decrease, every line that \<^verbatim>\<open>parseLyrics\<close> produces starts at a number, and if its end
  is a number the start is at most the end.
\<close>

theorem parseLyrics_start_le_end:
  assumes "sorted (time_stamp_values (element_textContent c))"
  shows "\<exists>s'. parseLyrics (Some c) s = Some s'
     \<and> (\<forall>i. length (lineElements s) \<le> i \<and> i < length (lineElements s') \<longrightarrow>
           (\<exists>a. line_start s' i = Number a \<and> (\<forall>e. line_end s' i = Number e \<longrightarrow> a \<le> e)))"
proof (cases "length (split_nl (trim (element_textContent c))) \<le> 1
              \<and> 0 \<le> indexOf (element_innerHTML c) ''<div''")
  case True
  then have "parseLyrics (Some c) s = Some s"
    by (simp add: parseLyrics_def)
  then show ?thesis by auto
next
  case False
  let ?ls = "split_nl (trim (element_textContent c))"
  let ?k = "length (lineElements s)"
  from parseLyrics_lines [OF False, of s] obtain s' where
    r: "parseLyrics (Some c) s = Some s'"
    and n: "length (lineElements s') = ?k + length ?ls"
    and f: "\<And>i. i < length ?ls \<Longrightarrow>
              line_start s' (?k + i) = Number (line_starts 0 ?ls ! i)
              \<and> line_end s' (?k + i) = line_ends ?ls ! i"
    by blast
  have so: "sorted (stamp_values ?ls)"
    using assms by (simp add: time_stamp_values_eq)
  have nn: "\<forall>v\<in>set (stamp_values ?ls). 0 \<le> v"
    using stamp_values_nonneg by blast
  have "\<exists>a. line_start s' i = Number a \<and> (\<forall>e. line_end s' i = Number e \<longrightarrow> a \<le> e)"
    if "?k \<le> i \<and> i < length (lineElements s')" for i
  proof -
    from that n obtain j where j: "i = ?k + j" "j < length ?ls"
      by (metis add_diff_inverse_nat nat_add_left_cancel_less not_less)
    have "line_starts 0 ?ls ! j \<le> e" if "line_end s' i = Number e" for e
      using starts_le_ends [OF so nn j(2), of e] f [OF j(2)] that j(1) by simp
    with f [OF j(2)] j(1) show ?thesis by simp
  qed
  with r show ?thesis by blast
qed

theorem parseLyrics_start_le_end_witness:
  "sorted (time_stamp_values (element_textContent scenario_1_text))
   \<and> (\<exists>s' a. parseLyrics (Some scenario_1_text) scenario_0 = Some s'
        \<and> line_start s' 0 = Number a \<and> line_end s' 0 = Number (7 / 2) \<and> a \<le> 7 / 2)"
proof -
  have h: "sorted (time_stamp_values (element_textContent scenario_1_text))"
    by code_simp
  have l: "length (lineElements scenario_0) = 0" "0 < length (lineElements scenario_1)"
    "line_end scenario_1 0 = Number (7 / 2)"
    by code_simp+
  from parseLyrics_start_le_end [OF h, of scenario_0] obtain s' where
    p: "parseLyrics (Some scenario_1_text) scenario_0 = Some s'"
    and f: "\<forall>i. length (lineElements scenario_0) \<le> i \<and> i < length (lineElements s') \<longrightarrow>
           (\<exists>a. line_start s' i = Number a \<and> (\<forall>e. line_end s' i = Number e \<longrightarrow> a \<le> e))"
    by blast
  from p have s': "s' = scenario_1"
    by (simp add: scenario_1_parsed)
  from f l(1,2) have "\<exists>a. line_start scenario_1 0 = Number a
      \<and> (\<forall>e. line_end scenario_1 0 = Number e \<longrightarrow> a \<le> e)"
    unfolding s' by simp
  with l(3) obtain a where "line_start s' 0 = Number a" "a \<le> 7 / 2"
    unfolding s' by blast
  with p l(3) h show ?thesis
    unfolding s' by blast
qed



subsection \<open>The lines of a parsed object\<close>

lemma line_ends_defined: "Undefined \<notin> set (line_ends ls)"
  by (induction ls) (auto split: list.splits option.splits)

text \<open>
  \<^verbatim>\<open>parseLyrics\<close> never throws. It keeps a well-formed object well formed, and every line
  it appends starts at a number and ends at a number or at Infinity: the lines that
  the theorems on the synchronizer and on gotoLine are about.
\<close>

lemma parseLyrics_wf:
  assumes "wf s"
  shows "\<exists>s'. parseLyrics el s = Some s' \<and> wf s'
     \<and> (\<forall>i. length (lineElements s) \<le> i \<and> i < length (lineElements s') \<longrightarrow>
           (\<exists>a. line_start s' i = Number a) \<and> line_end s' i \<noteq> Undefined)"
proof (cases el)
  case None
  with assms show ?thesis by (auto simp: parseLyrics_def)
next
  case (Some c)
  let ?ls = "split_nl (trim (element_textContent c))"
  let ?s0 = "s\<lparr>children := []\<rparr>"
  let ?n = "length (nodes s)"
  let ?k = "length (lineElements s)"
  show ?thesis
  proof (cases "length ?ls \<le> 1 \<and> 0 \<le> indexOf (element_innerHTML c) ''<div''")
    case True
    with assms Some show ?thesis by (auto simp: parseLyrics_def)
  next
    case False
    have "\<forall>r\<in>set []. r < length (nodes ?s0)" by simp
    from parse_lines_spec [OF this, of ?ls 0] obtain s' lt' wo' where
      p: "parse_lines ?ls (?s0, 0, []) = Some (s', lt', wo')"
      and n: "length (nodes s') = length (nodes ?s0) + length ?ls"
      and l: "lineElements s' = lineElements ?s0 @ [length (nodes ?s0)..<length (nodes ?s0) + length ?ls]"
      and new: "\<forall>i<length ?ls.
           data_start (nodes s' ! (length (nodes ?s0) + i)) = Number (line_starts 0 ?ls ! i)
           \<and> data_end (nodes s' ! (length (nodes ?s0) + i)) = line_ends ?ls ! i"
      by blast
    have r: "parseLyrics el s = Some s'"
      using False p Some by (auto simp: parseLyrics_def Let_def)
    have old: "\<forall>r\<in>set (lineElements s). r < ?n" and d: "distinct (lineElements s)"
      using assms by (simp_all add: wf_def list_all_iff)
    have w: "wf s'"
      using old d by (auto simp: wf_def list_all_iff l n)
    have q: "(\<exists>a. line_start s' i = Number a) \<and> line_end s' i \<noteq> Undefined"
      if "?k \<le> i \<and> i < length (lineElements s')" for i
    proof -
      have ll: "length (lineElements s') = ?k + length ?ls"
        by (simp add: l)
      define j where "j = i - ?k"
      have j: "i = ?k + j" "j < length ?ls"
        using that ll unfolding j_def by linarith+
      have "line_ends ?ls ! j \<in> set (line_ends ?ls)"
        using j(2) by simp
      then have "line_ends ?ls ! j \<noteq> Undefined"
        using line_ends_defined [of ?ls] by auto
      with new j show ?thesis
        by (simp add: line_start_def line_end_def l nth_append)
    qed
    show ?thesis
      using r w q by blast
  qed
qed


end
